theory Spec2Isabelle
  imports Complex_Main "HOL-Library.Sublist" "HOL-Library.AList"
begin

section \<open>Python values, exceptions and the library operations the pipeline uses\<close>

text \<open>
  The retrieval pipeline of \<^verbatim>\<open>backend/docs/rishi_rag.py\<close> works on values decoded from
  model output with \<^verbatim>\<open>json.loads\<close>. A decoded value is a \<open>json\<close>; a Python \<^verbatim>\<open>float\<close> is
  modelled by the exact rational it denotes (no NaN, no infinity, no rounding error), and a
  \<open>string\<close> is a list of characters. Every exception the code can raise on such values is
  a value of \<open>error\<close>, and a function that can raise returns \<open>error + 'a\<close>.
  \<open>ServiceError\<close> stands for whatever an external call (model or vector store) raises.
  \<open>NotModelled\<close> marks the one place where the model stops: ordering sub-questions
  whose priorities are all JSON arrays.
\<close>

datatype json =
    JNull
  | JBool bool
  | JInt int
  | JFloat rat
  | JStr string
  | JList "json list"
  | JObj "(string \<times> json) list"

datatype error =
    KeyError
  | TypeError
  | AttributeError
  | ZeroDivisionError
  | ServiceError
  | NotModelled

definition and_then :: "error + 'a \<Rightarrow> ('a \<Rightarrow> error + 'b) \<Rightarrow> error + 'b" where
  "and_then r f = (case r of Inl e \<Rightarrow> Inl e | Inr x \<Rightarrow> f x)"

fun map_result :: "('a \<Rightarrow> error + 'b) \<Rightarrow> 'a list \<Rightarrow> error + 'b list" where
  "map_result f [] = Inr []"
| "map_result f (x # xs) =
     (case f x of
        Inl e \<Rightarrow> Inl e
      | Inr y \<Rightarrow> (case map_result f xs of Inl e \<Rightarrow> Inl e | Inr ys \<Rightarrow> Inr (y # ys)))"

definition get_or :: "'a option \<Rightarrow> 'a \<Rightarrow> 'a" where
  \<comment> \<open>\<^verbatim>\<open>state.get(key, default)\<close> on a state whose key may be absent\<close>
  "get_or v d = (case v of None \<Rightarrow> d | Some x \<Rightarrow> x)"

fun num_val :: "json \<Rightarrow> rat option" where
  \<comment> \<open>the numeric value of an int, a float or a bool (a bool is an int in Python)\<close>
  "num_val (JBool b) = Some (if b then 1 else 0)"
| "num_val (JInt i) = Some (of_int i)"
| "num_val (JFloat r) = Some r"
| "num_val v = None"

fun int_val :: "json \<Rightarrow> int option" where
  "int_val (JBool b) = Some (if b then 1 else 0)"
| "int_val (JInt i) = Some i"
| "int_val v = None"

fun str_val :: "json \<Rightarrow> string option" where
  "str_val (JStr s) = Some s"
| "str_val v = None"

fun is_JList :: "json \<Rightarrow> bool" where
  "is_JList (JList xs) = True"
| "is_JList v = False"

definition py_mul_float :: "json \<Rightarrow> rat \<Rightarrow> error + rat" where
  \<comment> \<open>\<^verbatim>\<open>x * 0.8\<close>: a TypeError unless \<open>x\<close> is a number\<close>
  "py_mul_float x k = (case num_val x of None \<Rightarrow> Inl TypeError | Some v \<Rightarrow> Inr (v * k))"

definition py_div_float :: "json \<Rightarrow> rat \<Rightarrow> error + rat" where
  \<comment> \<open>\<^verbatim>\<open>x / 10.0\<close>\<close>
  "py_div_float x k =
     (case num_val x of
        None \<Rightarrow> Inl TypeError
      | Some v \<Rightarrow> if k = 0 then Inl ZeroDivisionError else Inr (v / k))"

definition py_true_div :: "int \<Rightarrow> int \<Rightarrow> error + rat" where
  \<comment> \<open>\<^verbatim>\<open>a / b\<close> on two ints\<close>
  "py_true_div a b = (if b = 0 then Inl ZeroDivisionError else Inr (of_int a / of_int b))"

definition py_sub :: "json \<Rightarrow> json \<Rightarrow> error + json" where
  \<comment> \<open>\<^verbatim>\<open>a - b\<close>: an int when both are ints (or bools), a float otherwise\<close>
  "py_sub a b =
     (case (int_val a, int_val b) of
        (Some x, Some y) \<Rightarrow> Inr (JInt (x - y))
      | _ \<Rightarrow>
          (case (num_val a, num_val b) of
             (Some x, Some y) \<Rightarrow> Inr (JFloat (x - y))
           | _ \<Rightarrow> Inl TypeError))"

definition py_int :: "rat \<Rightarrow> int" where
  \<comment> \<open>\<^verbatim>\<open>int(x)\<close> on a float: truncation toward zero\<close>
  "py_int r = (if 0 \<le> r then \<lfloor>r\<rfloor> else \<lceil>r\<rceil>)"

fun py_truthy :: "json \<Rightarrow> bool" where
  "py_truthy JNull = False"
| "py_truthy (JBool b) = b"
| "py_truthy (JInt i) = (i \<noteq> 0)"
| "py_truthy (JFloat r) = (r \<noteq> 0)"
| "py_truthy (JStr s) = (s \<noteq> [])"
| "py_truthy (JList xs) = (xs \<noteq> [])"
| "py_truthy (JObj kvs) = (kvs \<noteq> [])"

text \<open>
  Python's \<^verbatim>\<open>==\<close> on decoded values: numbers compare by value across int, float and
  bool; arrays element by element; objects by their members (the member list of an object
  has distinct keys, as \<^verbatim>\<open>json.loads\<close> builds it).
\<close>

fun py_eq :: "json \<Rightarrow> json \<Rightarrow> bool"
  and py_eq_list :: "json list \<Rightarrow> json list \<Rightarrow> bool"
  and py_eq_items :: "(string \<times> json) list \<Rightarrow> (string \<times> json) list \<Rightarrow> bool" where
  "py_eq JNull b = (b = JNull)"
| "py_eq (JBool x) b = (num_val b = Some (if x then 1 else 0))"
| "py_eq (JInt i) b = (num_val b = Some (of_int i))"
| "py_eq (JFloat r) b = (num_val b = Some r)"
| "py_eq (JStr s) b = (b = JStr s)"
| "py_eq (JList xs) b = (case b of JList ys \<Rightarrow> py_eq_list xs ys | _ \<Rightarrow> False)"
| "py_eq (JObj kvs) b =
     (case b of JObj kws \<Rightarrow> length kvs = length kws \<and> py_eq_items kvs kws | _ \<Rightarrow> False)"
| "py_eq_list [] ys = (ys = [])"
| "py_eq_list (x # xs) ys =
     (case ys of [] \<Rightarrow> False | y # ys' \<Rightarrow> py_eq x y \<and> py_eq_list xs ys')"
| "py_eq_items [] kws = True"
| "py_eq_items (kv # kvs) kws =
     (case map_of kws (fst kv) of
        None \<Rightarrow> False
      | Some w \<Rightarrow> py_eq (snd kv) w \<and> py_eq_items kvs kws)"

definition dict_get :: "json \<Rightarrow> string \<Rightarrow> json \<Rightarrow> error + json" where
  \<comment> \<open>\<^verbatim>\<open>obj.get(key, default)\<close>: only a dict has \<^verbatim>\<open>get\<close>\<close>
  "dict_get obj k d =
     (case obj of
        JObj kvs \<Rightarrow> Inr (case map_of kvs k of None \<Rightarrow> d | Some v \<Rightarrow> v)
      | _ \<Rightarrow> Inl AttributeError)"

definition dict_index :: "json \<Rightarrow> string \<Rightarrow> error + json" where
  \<comment> \<open>\<^verbatim>\<open>obj[key]\<close> with a string key\<close>
  "dict_index obj k =
     (case obj of
        JObj kvs \<Rightarrow> (case map_of kvs k of None \<Rightarrow> Inl KeyError | Some v \<Rightarrow> Inr v)
      | _ \<Rightarrow> Inl TypeError)"

definition py_last_n :: "nat \<Rightarrow> json \<Rightarrow> error + json" where
  \<comment> \<open>the slice \<^verbatim>\<open>x[-n:]\<close>: lists and strings can be sliced, nothing else\<close>
  "py_last_n n x =
     (case x of
        JList xs \<Rightarrow> Inr (JList (drop (length xs - n) xs))
      | JStr s \<Rightarrow> Inr (JStr (drop (length s - n) s))
      | _ \<Rightarrow> Inl TypeError)"

definition last_n :: "nat \<Rightarrow> 'a list \<Rightarrow> 'a list" where
  "last_n n xs = drop (length xs - n) xs"

definition lower_char :: "char \<Rightarrow> char" where
  "lower_char ch =
     (let n = (of_char ch :: nat) in if 65 \<le> n \<and> n \<le> 90 then char_of (n + 32) else ch)"

definition str_lower :: "json \<Rightarrow> error + string" where
  \<comment> \<open>\<^verbatim>\<open>x.lower()\<close>: only a str has it; the letters A to Z are lowered\<close>
  "str_lower x = (case x of JStr s \<Rightarrow> Inr (map lower_char s) | _ \<Rightarrow> Inl AttributeError)"

definition is_space :: "char \<Rightarrow> bool" where
  "is_space ch = ((of_char ch :: nat) \<in> {9, 10, 11, 12, 13, 28, 29, 30, 31, 32, 133, 160})"

definition py_strip :: "string \<Rightarrow> string" where
  "py_strip s = rev (dropWhile is_space (rev (dropWhile is_space s)))"

definition is_line_boundary :: "char \<Rightarrow> bool" where
  "is_line_boundary ch = ((of_char ch :: nat) \<in> {10, 11, 12, 13, 28, 29, 30, 133})"

definition first_line :: "string \<Rightarrow> string" where
  \<comment> \<open>\<^verbatim>\<open>s.splitlines()[0]\<close> for a non-empty \<open>s\<close>\<close>
  "first_line s = takeWhile (\<lambda>ch. \<not> is_line_boundary ch) s"

definition str_find :: "char \<Rightarrow> string \<Rightarrow> int" where
  "str_find ch text =
     (if ch \<in> set text then int (length (takeWhile (\<lambda>x. x \<noteq> ch) text)) else - 1)"

definition str_rfind :: "char \<Rightarrow> string \<Rightarrow> int" where
  "str_rfind ch text =
     (if ch \<in> set text
      then int (length text) - 1 - int (length (takeWhile (\<lambda>x. x \<noteq> ch) (rev text)))
      else - 1)"

definition safe_json_parse :: "(string \<Rightarrow> json option) \<Rightarrow> string \<Rightarrow> json \<Rightarrow> json" where
  \<comment> \<open>\<open>loads\<close> is \<^verbatim>\<open>json.loads\<close>; \<open>None\<close> when it raises JSONDecodeError\<close>
  "safe_json_parse loads text fallback =
     (let start = str_find CHR ''{'' text;
          stop = str_rfind CHR ''}'' text + 1
      in case (if 0 \<le> start \<and> start < stop
               then loads (take (nat (stop - start)) (drop (nat start) text))
               else loads text) of
           None \<Rightarrow> fallback
         | Some v \<Rightarrow> v)"

section \<open>Passages and deduplication\<close>

record document =
  page_content :: string
  metadata :: "(string \<times> json) list"

text \<open>
  A deduplication key is put into a Python set, so it is hashed: an array or an object as
  source or page raises TypeError. Keys that are equal in Python (\<^verbatim>\<open>3 == 3.0\<close>) are the
  same \<open>pykey\<close>. An absent metadata entry reads as \<^verbatim>\<open>None\<close>.
\<close>

datatype pykey = KNone | KNum rat | KStr string

fun hash_key :: "json \<Rightarrow> error + pykey" where
  "hash_key JNull = Inr KNone"
| "hash_key (JBool b) = Inr (KNum (if b then 1 else 0))"
| "hash_key (JInt i) = Inr (KNum (of_int i))"
| "hash_key (JFloat r) = Inr (KNum r)"
| "hash_key (JStr s) = Inr (KStr s)"
| "hash_key (JList xs) = Inl TypeError"
| "hash_key (JObj kvs) = Inl TypeError"

definition meta_get :: "document \<Rightarrow> string \<Rightarrow> json" where
  "meta_get d k = (case map_of (metadata d) k of None \<Rightarrow> JNull | Some v \<Rightarrow> v)"

definition doc_key :: "document \<Rightarrow> error + pykey \<times> pykey" where
  "doc_key d =
     (case hash_key (meta_get d ''source'') of
        Inl e \<Rightarrow> Inl e
      | Inr src \<Rightarrow>
          (case hash_key (meta_get d ''page'') of
             Inl e \<Rightarrow> Inl e
           | Inr page \<Rightarrow> Inr (src, page)))"

fun dedupe_loop ::
  "document list \<Rightarrow> (pykey \<times> pykey) set \<Rightarrow> document list \<Rightarrow> error + document list" where
  "dedupe_loop [] seen out = Inr out"
| "dedupe_loop (d # ds) seen out =
     (case doc_key d of
        Inl e \<Rightarrow> Inl e
      | Inr key \<Rightarrow>
          if key \<notin> seen then dedupe_loop ds (insert key seen) (out @ [d])
          else dedupe_loop ds seen out)"

definition dedupe_docs :: "document list \<Rightarrow> error + document list" where
  "dedupe_docs docs = dedupe_loop docs {} []"

definition merge_evidence :: "document list \<Rightarrow> document list \<Rightarrow> error + document list \<times> document list" where
  \<comment> \<open>the fusion step of the retriever: the batch is deduplicated, then merged into the
      accumulator; the result is (fused batch, updated accumulator)\<close>
  "merge_evidence existing_evidence all_docs =
     and_then (dedupe_docs all_docs) (\<lambda>fused_docs.
     and_then (dedupe_docs (existing_evidence @ fused_docs)) (\<lambda>updated_evidence.
     Inr (fused_docs, updated_evidence)))"

section \<open>The state of a run and the external services\<close>

text \<open>
  \<^verbatim>\<open>EnhancedAgentState\<close> is a \<^verbatim>\<open>TypedDict\<close> with \<^verbatim>\<open>total=False\<close>: every key but the
  question may be absent, so every other field is an \<open>option\<close>. A node returns the keys it
  writes; the graph engine stores them over the old values, which is a record update here.
  Fields that hold what the model answered keep it as \<open>json\<close>, whatever its shape.
\<close>

record agent_state =
  question :: string
  question_complexity :: "json option"
  question_type :: "json option"
  estimated_hops :: "json option"
  required_evidence_types :: "json option"
  key_aspects :: "json option"
  sub_questions :: "json list option"
  current_query_batch :: "json list option"
  parallel_results :: "(string \<times> document list) list option"
  fused_results :: "document list option"
  context_quality_score :: "json option"
  coverage_score :: "json option"
  evidence_strength :: "json option"
  detected_contradictions :: "json option"
  information_gaps :: "json option"
  sufficiency_assessment :: "json option"
  key_findings :: "json option"
  decision_factors :: "(string \<times> json) list option"
  continue_probability :: "json option"
  stop_reasons :: "json option"
  recent_quality_improvements :: "json list option"
  answer_confidence :: "json option"
  iteration :: "int option"
  max_dynamic_iters :: "int option"
  stop :: "bool option"
  evidence_docs :: "document list option"
  last_batch :: "document list option"
  evidence_hints :: "string list option"
  gaps :: "json option"
  final_answer :: "string option"
  grounded_ok :: "bool option"
  sub_question :: "json option"

text \<open>The constructor keeps two numbers; \<^verbatim>\<open>min_iters\<close> is stored as \<^verbatim>\<open>max(0, min_iters)\<close>.\<close>

record pipeline =
  default_max_iters :: int
  min_iters :: int

definition EnhancedRAGPipeline_init :: "int \<Rightarrow> int \<Rightarrow> pipeline" where
  "EnhancedRAGPipeline_init max_iters_arg min_iters_arg =
     \<lparr>default_max_iters = max_iters_arg, min_iters = max 0 min_iters_arg\<rparr>"

text \<open>
  The external collaborators. The model and the vector store are oracles: the \<open>n\<close>-th
  completion request of an operation is answered by \<open>llm_invoke role n\<close> and the \<open>n\<close>-th
  retriever call by \<open>retriever_invoke n\<close>, each either a value or an exception, so every
  sequence of answers is covered. The counters of calls made so far are threaded through
  the nodes as \<open>calls\<close>. \<open>json_loads\<close> and \<open>py_str\<close> are Python's \<^verbatim>\<open>json.loads\<close> (None when it
  raises) and \<^verbatim>\<open>str\<close>. Prompt texts are not built: what a prompt contains only reaches the
  oracle, whose answers are arbitrary here; where building one can raise, that is modelled.
\<close>

datatype llm_role = AnalysisLLM | PlanningLLM | SynthesisLLM

datatype search_type = MMR | Similarity

record services =
  llm_invoke :: "llm_role \<Rightarrow> nat \<Rightarrow> error + string"
  retriever_invoke :: "nat \<Rightarrow> search_type \<Rightarrow> json \<Rightarrow> error + document list"
  json_loads :: "string \<Rightarrow> json option"
  py_str :: "json \<Rightarrow> string"

record calls =
  llm_calls :: nat
  retriever_calls :: nat

definition chain_invoke ::
  "services \<Rightarrow> llm_role \<Rightarrow> calls \<Rightarrow> error + string \<times> calls" where
  "chain_invoke sv role c =
     (case llm_invoke sv role (llm_calls c) of
        Inl e \<Rightarrow> Inl e
      | Inr response \<Rightarrow> Inr (response, c\<lparr>llm_calls := Suc (llm_calls c)\<rparr>))"

section \<open>The nodes\<close>

subsection \<open>Question analysis\<close>

definition default_analysis :: json where
  "default_analysis = JObj
     [(''complexity_score'', JFloat 5),
      (''question_type'', JStr ''analytical''),
      (''estimated_hops'', JInt 4),
      (''required_evidence_types'', JList [JStr ''documents'']),
      (''key_aspects'', JList [JStr ''general'']),
      (''reasoning'', JStr ''Default analysis'')]"

definition analyze_question ::
  "pipeline \<Rightarrow> services \<Rightarrow> agent_state \<times> calls \<Rightarrow> error + agent_state \<times> calls" where
  "analyze_question P sv sc =
     (case sc of (s, c) \<Rightarrow>
     and_then (chain_invoke sv AnalysisLLM c) (\<lambda>(response, c').
     let analysis = safe_json_parse (json_loads sv) response default_analysis in
     and_then (dict_get analysis ''complexity_score'' (JFloat 5)) (\<lambda>complexity.
     and_then (dict_get analysis ''estimated_hops'' (JInt 4)) (\<lambda>hops.
     and_then (py_mul_float complexity (4 / 5)) (\<lambda>a.
     and_then (py_mul_float hops (1 / 2)) (\<lambda>b.
     let max_dynamic = min (default_max_iters P) (max 2 (py_int (a + b))) in
     and_then (dict_get analysis ''question_type'' (JStr ''analytical'')) (\<lambda>qtype.
     and_then (dict_get analysis ''required_evidence_types'' (JList [JStr ''documents''])) (\<lambda>ev_types.
     and_then (dict_get analysis ''key_aspects'' (JList [JStr ''general''])) (\<lambda>aspects.
     Inr (s\<lparr>question_complexity := Some complexity,
             question_type := Some qtype,
             estimated_hops := Some hops,
             required_evidence_types := Some ev_types,
             key_aspects := Some aspects,
             max_dynamic_iters := Some max_dynamic,
             iteration := Some 0,
             evidence_docs := Some [],
             evidence_hints := Some [],
             gaps := Some (JList []),
             recent_quality_improvements := Some [],
             context_quality_score := Some (JFloat 0),
             coverage_score := Some (JFloat 0),
             evidence_strength := Some (JFloat 0),
             information_gaps := Some (JList []),
             detected_contradictions := Some (JList []),
             key_findings := Some (JList [])\<rparr>, c'))))))))))"

subsection \<open>Query planning\<close>

definition default_planning :: "string \<Rightarrow> json" where
  "default_planning q = JObj
     [(''sub_questions'', JList
         [JObj [(''query'', JStr q), (''priority'', JFloat 1),
                (''aspect'', JStr ''general''), (''strategy'', JStr ''semantic'')]]),
      (''reasoning'', JStr ''Default planning'')]"

text \<open>
  \<^verbatim>\<open>list.sort(key=..., reverse=True)\<close> is stable: elements with equal keys keep their
  order. \<open>insert_desc\<close> puts an element after every element whose key is not smaller.
\<close>

fun insert_desc :: "('k \<Rightarrow> 'k \<Rightarrow> bool) \<Rightarrow> 'k \<times> 'a \<Rightarrow> ('k \<times> 'a) list \<Rightarrow> ('k \<times> 'a) list" where
  "insert_desc lt kx [] = [kx]"
| "insert_desc lt kx (ky # rest) =
     (if lt (fst ky) (fst kx) then kx # ky # rest else ky # insert_desc lt kx rest)"

definition sort_desc :: "('k \<Rightarrow> 'k \<Rightarrow> bool) \<Rightarrow> ('k \<times> 'a) list \<Rightarrow> 'a list" where
  "sort_desc lt kxs = map snd (foldl (\<lambda>acc kx. insert_desc lt kx acc) [] kxs)"

definition str_lt :: "string \<Rightarrow> string \<Rightarrow> bool" where
  "str_lt a b = lexordp (\<lambda>x y. (of_char x :: nat) < of_char y) a b"

definition sort_by_priority :: "json list \<Rightarrow> error + json list" where
  \<comment> \<open>the key function runs on every element first; comparisons happen only between two
      or more elements, and raise TypeError unless all keys are numbers or all are strings\<close>
  "sort_by_priority subs =
     and_then (map_result (\<lambda>x. dict_get x ''priority'' (JFloat (1 / 2))) subs) (\<lambda>keys.
     if length subs \<le> 1 then Inr subs
     else (case those (map num_val keys) of
             Some ks \<Rightarrow> Inr (sort_desc (\<lambda>a b. a < b) (zip ks subs))
           | None \<Rightarrow>
               (case those (map str_val keys) of
                  Some ks \<Rightarrow> Inr (sort_desc str_lt (zip ks subs))
                | None \<Rightarrow> if list_all is_JList keys then Inl NotModelled else Inl TypeError)))"

definition enhanced_plan ::
  "pipeline \<Rightarrow> services \<Rightarrow> agent_state \<times> calls \<Rightarrow> error + agent_state \<times> calls" where
  "enhanced_plan P sv sc =
     (case sc of (s, c) \<Rightarrow>
     and_then (py_last_n 5 (get_or (information_gaps s) (JList []))) (\<lambda>shown_gaps.
     and_then (chain_invoke sv PlanningLLM c) (\<lambda>(response, c').
     let planning_result = safe_json_parse (json_loads sv) response (default_planning (question s)) in
     and_then (dict_get planning_result ''sub_questions'' (JList [])) (\<lambda>subs.
     and_then (case subs of JList xs \<Rightarrow> sort_by_priority xs | _ \<Rightarrow> Inl AttributeError) (\<lambda>sorted.
     and_then (map_result (\<lambda>sq. dict_index sq ''query'') (take 3 sorted)) (\<lambda>current_batch.
     let sub_q = (case current_batch of [] \<Rightarrow> JStr (question s) | q # rest \<Rightarrow> q) in
     Inr (s\<lparr>sub_questions := Some sorted,
             current_query_batch := Some current_batch,
             sub_question := Some sub_q\<rparr>, c')))))))"

subsection \<open>Parallel retrieval\<close>

fun find_strategy :: "json list \<Rightarrow> json \<Rightarrow> error + json" where
  \<comment> \<open>the strategy of the first planned sub-question whose query equals this one\<close>
  "find_strategy [] query = Inr (JStr ''semantic'')"
| "find_strategy (sq # rest) query =
     (case dict_get sq ''query'' JNull of
        Inl e \<Rightarrow> Inl e
      | Inr q \<Rightarrow>
          if py_eq q query then dict_get sq ''strategy'' (JStr ''semantic'')
          else find_strategy rest query)"

definition retrieve_with_strategy ::
  "services \<Rightarrow> nat \<Rightarrow> json \<Rightarrow> json \<Rightarrow> document list \<times> nat" where
  \<comment> \<open>every exception inside is caught and gives no documents; the second component counts
      the retriever calls made\<close>
  "retrieve_with_strategy sv n query strategy =
     (if py_eq strategy (JStr ''semantic'') then
        (case retriever_invoke sv n MMR query of
           Inl e \<Rightarrow> ([], Suc n)
         | Inr docs \<Rightarrow> (docs, Suc n))
      else if py_eq strategy (JStr ''similarity'') then
        (case retriever_invoke sv n Similarity query of
           Inl e \<Rightarrow> ([], Suc n)
         | Inr docs \<Rightarrow> (docs, Suc n))
      else
        (case retriever_invoke sv n MMR query of
           Inl e \<Rightarrow> ([], Suc n)
         | Inr semantic_docs \<Rightarrow>
             (case retriever_invoke sv (Suc n) Similarity query of
                Inl e \<Rightarrow> ([], Suc (Suc n))
              | Inr similarity_docs \<Rightarrow>
                  (case dedupe_docs (semantic_docs @ similarity_docs) of
                     Inl e \<Rightarrow> ([], Suc (Suc n))
                   | Inr docs \<Rightarrow> (docs, Suc (Suc n))))))"

fun retrieve_loop ::
  "services \<Rightarrow> json list \<Rightarrow> json list \<Rightarrow> nat \<Rightarrow> (string \<times> document list) list \<Rightarrow> document list \<Rightarrow>
   error + (string \<times> document list) list \<times> document list \<times> nat" where
  "retrieve_loop sv subs [] n results all_docs = Inr (results, all_docs, n)"
| "retrieve_loop sv subs (query # queries) n results all_docs =
     (case find_strategy subs query of
        Inl e \<Rightarrow> Inl e
      | Inr strategy \<Rightarrow>
          (case retrieve_with_strategy sv n query strategy of
             (docs, n') \<Rightarrow>
               retrieve_loop sv subs queries n'
                 (AList.update (py_str sv query @ ''_'' @ py_str sv strategy) docs results)
                 (all_docs @ docs)))"

definition hint_of :: "services \<Rightarrow> document \<Rightarrow> string" where
  "hint_of sv d =
     (let src = (if py_truthy (meta_get d ''source'') then meta_get d ''source''
                 else if py_truthy (meta_get d ''file_path'') then meta_get d ''file_path''
                 else JStr ''unknown'');
          page = (case map_of (metadata d) ''page'' of None \<Rightarrow> JStr ''?'' | Some v \<Rightarrow> v);
          title = (if page_content d \<noteq> [] then take 120 (first_line (page_content d))
                   else ''No content'')
      in py_str sv src @ '' p.'' @ py_str sv page @ '': '' @ title)"

definition parallel_retrieve ::
  "pipeline \<Rightarrow> services \<Rightarrow> agent_state \<times> calls \<Rightarrow> error + agent_state \<times> calls" where
  "parallel_retrieve P sv sc =
     (case sc of (s, c) \<Rightarrow>
     let queries = get_or (current_query_batch s) [get_or (sub_question s) (JStr (question s))] in
     and_then (retrieve_loop sv (get_or (sub_questions s) []) queries (retriever_calls c) [] [])
       (\<lambda>(results, all_docs, n).
     and_then (merge_evidence (get_or (evidence_docs s) []) all_docs)
       (\<lambda>(fused_docs, updated_evidence).
     let new_hints = map (hint_of sv) fused_docs;
         updated_hints = last_n 50 (get_or (evidence_hints s) [] @ new_hints)
     in Inr (s\<lparr>parallel_results := Some results,
                fused_results := Some fused_docs,
                last_batch := Some fused_docs,
                evidence_docs := Some updated_evidence,
                evidence_hints := Some updated_hints\<rparr>,
             c\<lparr>retriever_calls := n\<rparr>))))"

subsection \<open>Context assessment\<close>

definition default_assessment :: json where
  "default_assessment = JObj
     [(''quality_score'', JFloat (1 / 2)),
      (''coverage_score'', JFloat (1 / 2)),
      (''evidence_strength'', JFloat (1 / 2)),
      (''information_gaps'', JList [JStr ''Assessment failed'']),
      (''contradictions'', JList []),
      (''sufficiency_assessment'', JStr ''partial''),
      (''key_findings'', JList []),
      (''reasoning'', JStr ''Default assessment'')]"

definition advanced_assess ::
  "pipeline \<Rightarrow> services \<Rightarrow> agent_state \<times> calls \<Rightarrow> error + agent_state \<times> calls" where
  "advanced_assess P sv sc =
     (case sc of (s, c) \<Rightarrow>
     if get_or (evidence_docs s) [] = [] then
       Inr (s\<lparr>context_quality_score := Some (JFloat 0),
               coverage_score := Some (JFloat 0),
               evidence_strength := Some (JFloat 0),
               information_gaps := Some (JList [JStr ''No relevant documents found'']),
               detected_contradictions := Some (JList []),
               sufficiency_assessment := Some (JStr ''insufficient''),
               key_findings := Some (JList []),
               gaps := Some (JList [JStr ''No relevant documents found''])\<rparr>, c)
     else
     and_then (chain_invoke sv AnalysisLLM c) (\<lambda>(response, c').
     let assessment = safe_json_parse (json_loads sv) response default_assessment;
         previous_quality = get_or (context_quality_score s) (JFloat 0) in
     and_then (dict_get assessment ''quality_score'' (JFloat (1 / 2))) (\<lambda>current_quality.
     and_then (py_sub current_quality previous_quality) (\<lambda>quality_improvement.
     let recent_improvements =
           last_n 3 (get_or (recent_quality_improvements s) [] @ [quality_improvement]) in
     and_then (dict_get assessment ''coverage_score'' (JFloat (1 / 2))) (\<lambda>coverage.
     and_then (dict_get assessment ''evidence_strength'' (JFloat (1 / 2))) (\<lambda>strength.
     and_then (dict_get assessment ''information_gaps'' (JList [])) (\<lambda>info_gaps.
     and_then (dict_get assessment ''contradictions'' (JList [])) (\<lambda>contradictions.
     and_then (dict_get assessment ''sufficiency_assessment'' (JStr ''partial'')) (\<lambda>sufficiency.
     and_then (dict_get assessment ''key_findings'' (JList [])) (\<lambda>findings.
     Inr (s\<lparr>context_quality_score := Some current_quality,
             coverage_score := Some coverage,
             evidence_strength := Some strength,
             information_gaps := Some info_gaps,
             detected_contradictions := Some contradictions,
             sufficiency_assessment := Some sufficiency,
             key_findings := Some findings,
             recent_quality_improvements := Some recent_improvements,
             gaps := Some info_gaps\<rparr>, c')))))))))))"

subsection \<open>The iteration controller\<close>

definition default_decision :: json where
  "default_decision = JObj
     [(''decision'', JStr ''continue''),
      (''confidence'', JFloat (1 / 2)),
      (''reasoning'', JStr ''Default decision''),
      (''stop_reasons'', JList []),
      (''continue_strategy'', JStr ''general search''),
      (''estimated_remaining_hops'', JInt 2)]"

definition append_stop_reason :: "json \<Rightarrow> error + json" where
  \<comment> \<open>\<^verbatim>\<open>decision_result["stop_reasons"].append("Reached maximum iterations")\<close>\<close>
  "append_stop_reason decision_result =
     and_then (dict_index decision_result ''stop_reasons'') (\<lambda>reasons.
     case (decision_result, reasons) of
       (JObj kvs, JList rs) \<Rightarrow>
         Inr (JObj (AList.update ''stop_reasons''
                      (JList (rs @ [JStr ''Reached maximum iterations''])) kvs))
     | _ \<Rightarrow> Inl AttributeError)"

definition intelligent_decide ::
  "pipeline \<Rightarrow> services \<Rightarrow> agent_state \<times> calls \<Rightarrow> error + agent_state \<times> calls" where
  "intelligent_decide P sv sc =
     (case sc of (s, c) \<Rightarrow>
     let it = get_or (iteration s) 0;
         max_iters = get_or (max_dynamic_iters s) (default_max_iters P);
         complexity = get_or (question_complexity s) (JFloat 5);
         quality = get_or (context_quality_score s) (JFloat 0);
         coverage = get_or (coverage_score s) (JFloat 0) in
     and_then (chain_invoke sv AnalysisLLM c) (\<lambda>(response, c').
     let decision_result = safe_json_parse (json_loads sv) response default_decision in
     and_then (dict_get decision_result ''decision'' (JStr ''continue'')) (\<lambda>decision.
     and_then (str_lower decision) (\<lambda>lowered.
     let should_stop = (lowered = ''stop'') in
     and_then (if it + 1 \<ge> max_iters
               then and_then (append_stop_reason decision_result) (\<lambda>dr. Inr (True, dr))
               else Inr (should_stop, decision_result)) (\<lambda>(should_stop, decision_result).
     let should_stop = (if it + 1 < min_iters P then False else should_stop) in
     and_then (py_true_div (it + 1) max_iters) (\<lambda>iteration_ratio.
     and_then (py_div_float complexity 10) (\<lambda>complexity_factor.
     and_then (dict_get decision_result ''confidence'' (JFloat (1 / 2))) (\<lambda>confidence.
     and_then (dict_get decision_result ''stop_reasons'' (JList [])) (\<lambda>reasons.
     Inr (s\<lparr>stop := Some should_stop,
             iteration := Some (it + 1),
             decision_factors := Some
               [(''quality_score'', quality),
                (''coverage_score'', coverage),
                (''iteration_ratio'', JFloat iteration_ratio),
                (''complexity_factor'', JFloat complexity_factor)],
             continue_probability := Some confidence,
             stop_reasons := Some reasons\<rparr>, c'))))))))))"

subsection \<open>Synthesis and verification\<close>

definition no_evidence_answer :: string where
  "no_evidence_answer =
     ''I couldn't find any relevant evidence in the knowledge base for this query.''"

definition enhanced_synthesis ::
  "pipeline \<Rightarrow> services \<Rightarrow> agent_state \<times> calls \<Rightarrow> error + agent_state \<times> calls" where
  "enhanced_synthesis P sv sc =
     (case sc of (s, c) \<Rightarrow>
     if get_or (evidence_docs s) [] = [] then
       Inr (s\<lparr>final_answer := Some no_evidence_answer,
               answer_confidence := Some (JFloat 0)\<rparr>, c)
     else
     let quality_score = get_or (context_quality_score s) (JFloat (1 / 2));
         coverage = get_or (coverage_score s) (JFloat (1 / 2));
         strength = get_or (evidence_strength s) (JFloat (1 / 2)) in
     and_then (chain_invoke sv SynthesisLLM c) (\<lambda>(answer, c').
     and_then (py_mul_float quality_score (2 / 5)) (\<lambda>q.
     and_then (py_mul_float coverage (2 / 5)) (\<lambda>cv.
     and_then (py_mul_float strength (1 / 5)) (\<lambda>st.
     Inr (s\<lparr>final_answer := Some (py_strip answer),
             answer_confidence := Some (JFloat (q + cv + st))\<rparr>, c'))))))"

definition default_verification :: json where
  "default_verification = JObj
     [(''overall_grounding'', JStr ''fail''),
      (''factual_grounding'', JFloat (1 / 2)),
      (''logical_consistency'', JFloat (1 / 2)),
      (''completeness'', JFloat (1 / 2)),
      (''source_attribution'', JFloat (1 / 2)),
      (''confidence_calibration'', JFloat (1 / 2)),
      (''issues_found'', JList [JStr ''Verification failed'']),
      (''recommendations'', JList []),
      (''final_assessment'', JStr ''needs_improvement'')]"

definition advanced_verify ::
  "pipeline \<Rightarrow> services \<Rightarrow> agent_state \<times> calls \<Rightarrow> error + agent_state \<times> calls" where
  "advanced_verify P sv sc =
     (case sc of (s, c) \<Rightarrow>
     if get_or (evidence_docs s) [] = [] \<or> get_or (final_answer s) [] = [] then
       Inr (s\<lparr>grounded_ok := Some False\<rparr>, c)
     else
     and_then (chain_invoke sv AnalysisLLM c) (\<lambda>(response, c').
     let verification = safe_json_parse (json_loads sv) response default_verification in
     and_then (dict_get verification ''overall_grounding'' (JStr ''fail'')) (\<lambda>grounding.
     and_then (str_lower grounding) (\<lambda>lowered.
     Inr (s\<lparr>grounded_ok := Some (lowered = ''pass'')\<rparr>, c')))))"

section \<open>The graph\<close>

datatype node =
    AnalyzeQuestion
  | EnhancedPlan
  | ParallelRetrieve
  | AdvancedAssess
  | IntelligentDecide
  | EnhancedSynthesis
  | AdvancedVerify
  | END

fun node_fn ::
  "pipeline \<Rightarrow> services \<Rightarrow> node \<Rightarrow> agent_state \<times> calls \<Rightarrow> error + agent_state \<times> calls" where
  "node_fn P sv AnalyzeQuestion sc = analyze_question P sv sc"
| "node_fn P sv EnhancedPlan sc = enhanced_plan P sv sc"
| "node_fn P sv ParallelRetrieve sc = parallel_retrieve P sv sc"
| "node_fn P sv AdvancedAssess sc = advanced_assess P sv sc"
| "node_fn P sv IntelligentDecide sc = intelligent_decide P sv sc"
| "node_fn P sv EnhancedSynthesis sc = enhanced_synthesis P sv sc"
| "node_fn P sv AdvancedVerify sc = advanced_verify P sv sc"
| "node_fn P sv END sc = Inr sc"

fun next_node :: "node \<Rightarrow> agent_state \<Rightarrow> node" where
  \<comment> \<open>the edges; the one conditional edge reads the stop flag the controller wrote\<close>
  "next_node AnalyzeQuestion s = EnhancedPlan"
| "next_node EnhancedPlan s = ParallelRetrieve"
| "next_node ParallelRetrieve s = AdvancedAssess"
| "next_node AdvancedAssess s = IntelligentDecide"
| "next_node IntelligentDecide s = (if get_or (stop s) False then EnhancedSynthesis else EnhancedPlan)"
| "next_node EnhancedSynthesis s = AdvancedVerify"
| "next_node AdvancedVerify s = END"
| "next_node END s = END"

section \<open>Facts about deduplication\<close>

definition keyset :: "document list \<Rightarrow> (pykey \<times> pykey) set" where
  "keyset ds = {k. Inr k \<in> doc_key ` set ds}"

definition hashable :: "document list \<Rightarrow> bool" where
  "hashable ds = (\<forall>d\<in>set ds. \<exists>k. doc_key d = Inr k)"

lemma keyset_simps:
  "keyset [] = {}"
  "doc_key d = Inr k \<Longrightarrow> keyset (d # ds) = insert k (keyset ds)"
  "keyset (xs @ ys) = keyset xs \<union> keyset ys"
  by (auto simp: keyset_def)

lemma dedupe_loop_out:
  "dedupe_loop ds seen out =
     (case dedupe_loop ds seen [] of Inl e \<Rightarrow> Inl e | Inr r \<Rightarrow> Inr (out @ r))"
proof (induction ds arbitrary: seen out)
  case Nil
  then show ?case by simp
next
  case (Cons d ds)
  have a: "dedupe_loop ds s (out @ [d]) =
      (case dedupe_loop ds s [] of Inl e \<Rightarrow> Inl e | Inr r \<Rightarrow> Inr (out @ d # r))" for s
    using Cons.IH [of s "out @ [d]"] by (simp split: sum.splits)
  have b: "dedupe_loop ds s [d] =
      (case dedupe_loop ds s [] of Inl e \<Rightarrow> Inl e | Inr r \<Rightarrow> Inr (d # r))" for s
    using Cons.IH [of s "[d]"] by (simp split: sum.splits)
  show ?case
    using Cons.IH [of seen out]
    by (simp add: a b split: sum.splits)
qed

lemma dedupe_loop_new:
  "doc_key d = Inr k \<Longrightarrow> k \<notin> seen \<Longrightarrow>
   dedupe_loop (d # ds) seen [] =
     (case dedupe_loop ds (insert k seen) [] of Inl e \<Rightarrow> Inl e | Inr r \<Rightarrow> Inr (d # r))"
  using dedupe_loop_out [of ds "insert k seen" "[d]"] by (simp split: sum.splits)

lemma dedupe_loop_old:
  "doc_key d = Inr k \<Longrightarrow> k \<in> seen \<Longrightarrow> dedupe_loop (d # ds) seen [] = dedupe_loop ds seen []"
  by simp

lemma dedupe_loop_err:
  "doc_key d = Inl e \<Longrightarrow> dedupe_loop (d # ds) seen out = Inl e"
  by simp

lemmas dedupe_loop_step = dedupe_loop_new dedupe_loop_old dedupe_loop_err

lemma dedupe_loop_append:
  "dedupe_loop (xs @ ys) seen [] =
     (case dedupe_loop xs seen [] of
        Inl e \<Rightarrow> Inl e
      | Inr r \<Rightarrow>
          (case dedupe_loop ys (seen \<union> keyset xs) [] of
             Inl e \<Rightarrow> Inl e
           | Inr r' \<Rightarrow> Inr (r @ r')))"
proof (induction xs arbitrary: seen)
  case Nil
  then show ?case by (simp add: keyset_simps split: sum.splits)
next
  case (Cons d xs)
  show ?case
  proof (cases "doc_key d")
    case (Inl e)
    then show ?thesis by simp
  next
    case (Inr k)
    show ?thesis
    proof (cases "k \<in> seen")
      case True
      then show ?thesis
        using Inr Cons.IH [of seen]
        by (simp add: dedupe_loop_step keyset_simps insert_absorb del: dedupe_loop.simps
            split: sum.splits)
    next
      case False
      then show ?thesis
        using Inr Cons.IH [of "insert k seen"]
        by (simp add: dedupe_loop_step keyset_simps del: dedupe_loop.simps split: sum.splits)
    qed
  qed
qed

lemma dedupe_loop_fresh:
  "distinct (map doc_key xs) \<Longrightarrow> hashable xs \<Longrightarrow> keyset xs \<inter> seen = {} \<Longrightarrow>
   dedupe_loop xs seen [] = Inr xs"
proof (induction xs arbitrary: seen)
  case Nil
  then show ?case by simp
next
  case (Cons d xs)
  from Cons.prems(2) obtain k where k: "doc_key d = Inr k"
    by (auto simp: hashable_def)
  have 1: "k \<notin> seen" using Cons.prems(3) k by (auto simp: keyset_simps)
  have 2: "k \<notin> keyset xs"
    using Cons.prems(1) k by (auto simp: keyset_def)
  have 3: "hashable xs" using Cons.prems(2) by (simp add: hashable_def)
  have 4: "keyset xs \<inter> insert k seen = {}"
    using Cons.prems(3) 2 k by (auto simp: keyset_simps)
  have "dedupe_loop xs (insert k seen) [] = Inr xs"
    using Cons.IH [OF _ 3 4] Cons.prems(1) by simp
  then show ?case
    using k 1 by (simp add: dedupe_loop_step del: dedupe_loop.simps)
qed

lemma dedupe_loop_seen:
  "hashable ys \<Longrightarrow> keyset ys \<subseteq> seen \<Longrightarrow> dedupe_loop ys seen [] = Inr []"
proof (induction ys)
  case Nil
  then show ?case by simp
next
  case (Cons d ys)
  from Cons.prems(1) obtain k where k: "doc_key d = Inr k"
    by (auto simp: hashable_def)
  then show ?case
    using Cons by (auto simp: keyset_simps hashable_def)
qed

lemma dedupe_loop_result:
  "dedupe_loop xs seen [] = Inr r \<Longrightarrow>
   hashable xs \<and> hashable r \<and> distinct (map doc_key r) \<and> keyset r = keyset xs - seen \<and>
   subseq r xs"
proof (induction xs arbitrary: seen r)
  case Nil
  then show ?case by (auto simp: hashable_def keyset_def)
next
  case (Cons d xs)
  from Cons.prems obtain k where k: "doc_key d = Inr k"
    by (cases "doc_key d") auto
  show ?case
  proof (cases "k \<in> seen")
    case True
    then have "dedupe_loop xs seen [] = Inr r"
      using Cons.prems k by simp
    from Cons.IH [OF this] show ?thesis
      using k True by (auto simp: hashable_def keyset_simps)
  next
    case False
    then obtain r' where r': "dedupe_loop xs (insert k seen) [] = Inr r'" and r: "r = d # r'"
      using Cons.prems k
      by (auto simp add: dedupe_loop_step simp del: dedupe_loop.simps split: sum.splits)
    from Cons.IH [OF r'] have ih: "hashable xs" "hashable r'" "distinct (map doc_key r')"
      "keyset r' = keyset xs - insert k seen" "subseq r' xs" by auto
    have "doc_key d \<notin> doc_key ` set r'"
      using ih(4) k by (auto simp: keyset_def)
    then show ?thesis
      using ih k False r by (auto simp: hashable_def keyset_simps)
  qed
qed






section \<open>Facts about the nodes\<close>

lemma and_thenE:
  assumes "and_then r f = Inr y"
  obtains x where "r = Inr x" and "f x = Inr y"
  using assms by (cases r) (auto simp: and_then_def)

lemma and_then_Inr [simp]: "and_then (Inr x) f = f x"
  by (simp add: and_then_def)

lemma and_then_Inl [simp]: "and_then (Inl e) f = Inl e"
  by (simp add: and_then_def)

lemma merge_evidenceE:
  assumes "merge_evidence acc docs = Inr (fused, acc')"
  shows "dedupe_docs docs = Inr fused" and "dedupe_docs (acc @ fused) = Inr acc'"
  using assms by (auto simp: merge_evidence_def elim!: and_thenE)

lemma dedupe_docs_absorb:
  assumes "dedupe_docs (acc @ fused) = Inr acc'"
  shows "dedupe_docs (acc' @ fused) = Inr acc'"
proof -
  from assms have r: "dedupe_loop (acc @ fused) {} [] = Inr acc'"
    by (simp add: dedupe_docs_def)
  from dedupe_loop_result [OF r]
  have h: "hashable (acc @ fused)" "hashable acc'" "distinct (map doc_key acc')"
    "keyset acc' = keyset (acc @ fused)" by auto
  have 1: "dedupe_loop acc' {} [] = Inr acc'"
    using dedupe_loop_fresh [of acc' "{}"] h by simp
  have "hashable fused" using h(1) by (auto simp: hashable_def)
  moreover have "keyset fused \<subseteq> {} \<union> keyset acc'"
    using h(4) by (simp add: keyset_simps)
  ultimately have 2: "dedupe_loop fused ({} \<union> keyset acc') [] = Inr []"
    by (rule dedupe_loop_seen)
  show ?thesis
    unfolding dedupe_docs_def dedupe_loop_append [of acc' fused "{}"]
    by (simp only: 1 2 sum.case append_Nil2)
qed

lemma merge_evidence_extends:
  assumes "merge_evidence acc docs = Inr (fused, acc')"
    and "distinct (map doc_key acc)"
  shows "\<exists>added. acc' = acc @ added" and "distinct (map doc_key acc')"
proof -
  from merge_evidenceE(2) [OF assms(1)] have r: "dedupe_loop (acc @ fused) {} [] = Inr acc'"
    by (simp add: dedupe_docs_def)
  from dedupe_loop_result [OF r]
  have h: "hashable (acc @ fused)" "distinct (map doc_key acc')" by auto
  then show "distinct (map doc_key acc')" by simp
  have "hashable acc" using h(1) by (auto simp: hashable_def)
  then have 1: "dedupe_loop acc {} [] = Inr acc"
    using dedupe_loop_fresh [of acc "{}"] assms(2) by simp
  show "\<exists>added. acc' = acc @ added"
    using r unfolding dedupe_loop_append [of acc fused "{}"]
    by (auto simp: 1 split: sum.splits)
qed

lemma chain_invoke_calls:
  "chain_invoke sv role c = Inr (r, c') \<Longrightarrow> c' = c\<lparr>llm_calls := Suc (llm_calls c)\<rparr>"
  by (auto simp: chain_invoke_def split: sum.splits)


lemma analyze_question_shape:
  assumes "analyze_question P sv (s, c) = Inr (s', c')"
  obtains complexity hops qtype ev_types aspects a b where
    "s' = s\<lparr>question_complexity := Some complexity,
            question_type := Some qtype,
            estimated_hops := Some hops,
            required_evidence_types := Some ev_types,
            key_aspects := Some aspects,
            max_dynamic_iters :=
              Some (min (default_max_iters P) (max 2 (py_int (a + b)))),
            iteration := Some 0,
            evidence_docs := Some [],
            evidence_hints := Some [],
            gaps := Some (JList []),
            recent_quality_improvements := Some [],
            context_quality_score := Some (JFloat 0),
            coverage_score := Some (JFloat 0),
            evidence_strength := Some (JFloat 0),
            information_gaps := Some (JList []),
            detected_contradictions := Some (JList []),
            key_findings := Some (JList [])\<rparr>"
    and "py_mul_float complexity (4 / 5) = Inr a" and "py_mul_float hops (1 / 2) = Inr b"
    and "c' = c\<lparr>llm_calls := Suc (llm_calls c)\<rparr>"
  using assms
  apply (simp add: analyze_question_def Let_def)
  apply (elim and_thenE)
  apply (simp split: prod.splits)
  apply (elim and_thenE)
  apply (frule chain_invoke_calls)
  apply auto
  done

lemma enhanced_plan_shape:
  assumes "enhanced_plan P sv (s, c) = Inr (s', c')"
  obtains sorted batch sq where
    "s' = s\<lparr>sub_questions := Some sorted, current_query_batch := Some batch,
            sub_question := Some sq\<rparr>"
    and "c' = c\<lparr>llm_calls := Suc (llm_calls c)\<rparr>"
  using assms
  apply (simp add: enhanced_plan_def Let_def)
  apply (elim and_thenE)
  apply (simp split: prod.splits)
  apply (elim and_thenE)
  apply (frule chain_invoke_calls)
  apply auto
  done

lemma parallel_retrieve_shape:
  assumes "parallel_retrieve P sv (s, c) = Inr (s', c')"
  obtains results all_docs fused updated hints n where
    "s' = s\<lparr>parallel_results := Some results, fused_results := Some fused,
            last_batch := Some fused, evidence_docs := Some updated,
            evidence_hints := Some hints\<rparr>"
    and "merge_evidence (get_or (evidence_docs s) []) all_docs = Inr (fused, updated)"
    and "c' = c\<lparr>retriever_calls := n\<rparr>"
  using assms
  apply (simp add: parallel_retrieve_def Let_def)
  apply (elim and_thenE)
  apply (simp split: prod.splits)
  apply (elim and_thenE)
  apply (simp split: prod.splits)
  apply auto
  done

lemma advanced_assess_shape:
  assumes "advanced_assess P sv (s, c) = Inr (s', c')"
  obtains q cv st ig dc sa kf rqi where
    "s' = s\<lparr>context_quality_score := Some q, coverage_score := Some cv,
            evidence_strength := Some st, information_gaps := Some ig,
            detected_contradictions := Some dc, sufficiency_assessment := Some sa,
            key_findings := Some kf, recent_quality_improvements := rqi,
            gaps := Some ig\<rparr>"
proof (cases "get_or (evidence_docs s) [] = []")
  case True
  with assms have "s' = s\<lparr>context_quality_score := Some (JFloat 0),
               coverage_score := Some (JFloat 0),
               evidence_strength := Some (JFloat 0),
               information_gaps := Some (JList [JStr ''No relevant documents found'']),
               detected_contradictions := Some (JList []),
               sufficiency_assessment := Some (JStr ''insufficient''),
               key_findings := Some (JList []),
               recent_quality_improvements := recent_quality_improvements s,
               gaps := Some (JList [JStr ''No relevant documents found''])\<rparr>"
    by (simp add: advanced_assess_def)
  then show ?thesis by (rule that)
next
  case False
  with assms show ?thesis
    apply (simp add: advanced_assess_def Let_def)
    apply (elim and_thenE)
    apply (simp split: prod.splits)
    apply (elim and_thenE)
    apply (rule that)
    apply auto
    done
qed

lemma intelligent_decide_shape:
  assumes "intelligent_decide P sv (s, c) = Inr (s', c')"
  obtains b df cp sr where
    "s' = s\<lparr>stop := Some b, iteration := Some (get_or (iteration s) 0 + 1),
            decision_factors := Some df, continue_probability := Some cp,
            stop_reasons := Some sr\<rparr>"
    and "c' = c\<lparr>llm_calls := Suc (llm_calls c)\<rparr>"
    and "get_or (max_dynamic_iters s) (default_max_iters P) \<noteq> 0"
    and "get_or (iteration s) 0 + 1 < min_iters P \<Longrightarrow> \<not> b"
    and "\<not> get_or (iteration s) 0 + 1 < min_iters P \<Longrightarrow>
         get_or (max_dynamic_iters s) (default_max_iters P) \<le> get_or (iteration s) 0 + 1 \<Longrightarrow> b"
  using assms
  apply (simp add: intelligent_decide_def Let_def)
  apply (elim and_thenE)
  apply (simp split: prod.splits)
  apply (elim and_thenE)
  apply (simp split: prod.splits)
  apply (elim and_thenE)
  apply (frule chain_invoke_calls)
  apply (auto simp: py_true_div_def split: if_splits elim!: and_thenE)
  done

lemma enhanced_synthesis_shape:
  assumes "enhanced_synthesis P sv (s, c) = Inr (s', c')"
  obtains a conf where
    "s' = s\<lparr>final_answer := Some a, answer_confidence := Some conf\<rparr>"
proof (cases "get_or (evidence_docs s) [] = []")
  case True
  with assms have "s' = s\<lparr>final_answer := Some no_evidence_answer,
      answer_confidence := Some (JFloat 0)\<rparr>"
    by (simp add: enhanced_synthesis_def)
  then show ?thesis by (rule that)
next
  case False
  with assms show ?thesis
    apply (simp add: enhanced_synthesis_def Let_def)
    apply (elim and_thenE)
    apply (simp split: prod.splits)
    apply (elim and_thenE)
    apply (rule that)
    apply auto
    done
qed

lemma advanced_verify_shape:
  assumes "advanced_verify P sv (s, c) = Inr (s', c')"
  obtains b where "s' = s\<lparr>grounded_ok := Some b\<rparr>"
proof (cases "get_or (evidence_docs s) [] = [] \<or> get_or (final_answer s) [] = []")
  case True
  with assms have "s' = s\<lparr>grounded_ok := Some False\<rparr>"
    by (auto simp add: advanced_verify_def)
  then show ?thesis by (rule that)
next
  case False
  with assms show ?thesis
    apply (simp add: advanced_verify_def Let_def)
    apply (elim and_thenE)
    apply (simp split: prod.splits)
    apply (elim and_thenE)
    apply (rule that)
    apply auto
    done
qed

section \<open>Running the graph\<close>

text \<open>
  The engine runs the node it stands at, stores what the node returned, and follows the
  edge; an exception of a node ends the run. The list of nodes run so far is kept for the
  streaming interface. The run always ends: between two visits of the controller the
  number of iterations still allowed, \<open>iterations_left\<close>, goes down. (The engine's own
  recursion limit is outside the model.)
\<close>

definition iterations_left :: "pipeline \<Rightarrow> agent_state \<Rightarrow> nat" where
  "iterations_left P s =
     nat (max (get_or (max_dynamic_iters s) (default_max_iters P)) (min_iters P)
          - get_or (iteration s) 0)"

fun run_measure :: "pipeline \<Rightarrow> node \<Rightarrow> agent_state \<Rightarrow> nat" where
  "run_measure P END s = 0"
| "run_measure P AdvancedVerify s = 1"
| "run_measure P EnhancedSynthesis s = 2"
| "run_measure P IntelligentDecide s = 3 + 4 * iterations_left P s"
| "run_measure P AdvancedAssess s = 4 + 4 * iterations_left P s"
| "run_measure P ParallelRetrieve s = 5 + 4 * iterations_left P s"
| "run_measure P EnhancedPlan s = 6 + 4 * iterations_left P s"
| "run_measure P AnalyzeQuestion s = 7 + 4 * nat (max (default_max_iters P) (min_iters P))"

lemma run_measure_decreases:
  assumes "n \<noteq> END" and "node_fn P sv n (s, c) = Inr (s', c')"
  shows "run_measure P (next_node n s') s' < run_measure P n s"
proof (cases n)
  case AnalyzeQuestion
  with assms(2) have "analyze_question P sv (s, c) = Inr (s', c')" by simp
  then show ?thesis
    using AnalyzeQuestion
    by (elim analyze_question_shape) (simp add: iterations_left_def get_or_def)
next
  case EnhancedPlan
  with assms(2) have "enhanced_plan P sv (s, c) = Inr (s', c')" by simp
  then show ?thesis
    using EnhancedPlan by (elim enhanced_plan_shape) (simp add: iterations_left_def)
next
  case ParallelRetrieve
  with assms(2) have "parallel_retrieve P sv (s, c) = Inr (s', c')" by simp
  then show ?thesis
    using ParallelRetrieve by (elim parallel_retrieve_shape) (simp add: iterations_left_def)
next
  case AdvancedAssess
  with assms(2) have "advanced_assess P sv (s, c) = Inr (s', c')" by simp
  then show ?thesis
    using AdvancedAssess by (elim advanced_assess_shape) (simp add: iterations_left_def)
next
  case IntelligentDecide
  with assms(2) have d: "intelligent_decide P sv (s, c) = Inr (s', c')" by simp
  define i where "i = get_or (iteration s) 0"
  define M where "M = get_or (max_dynamic_iters s) (default_max_iters P)"
  from d obtain b df cp sr where
    s': "s' = s\<lparr>stop := Some b, iteration := Some (i + 1),
            decision_factors := Some df, continue_probability := Some cp,
            stop_reasons := Some sr\<rparr>"
    and b: "\<not> i + 1 < min_iters P \<Longrightarrow> M \<le> i + 1 \<Longrightarrow> b"
    unfolding i_def M_def by (elim intelligent_decide_shape) blast
  show ?thesis
  proof (cases b)
    case True
    then show ?thesis using IntelligentDecide s' by (simp add: get_or_def)
  next
    case False
    with b have "i + 1 < min_iters P \<or> i + 1 < M" by fastforce
    then have "i + 1 < max M (min_iters P)" by auto
    then have "nat (max M (min_iters P) - (i + 1)) < nat (max M (min_iters P) - i)"
      by simp
    moreover have "iterations_left P s' = nat (max M (min_iters P) - (i + 1))"
      by (simp add: iterations_left_def s' M_def get_or_def)
    moreover have "iterations_left P s = nat (max M (min_iters P) - i)"
      by (simp add: iterations_left_def M_def i_def)
    ultimately show ?thesis
      using IntelligentDecide False s' by (simp add: get_or_def)
  qed
next
  case EnhancedSynthesis
  then show ?thesis by simp
next
  case AdvancedVerify
  then show ?thesis by simp
next
  case END
  with assms(1) show ?thesis by simp
qed

definition run_graph_order ::
  "((pipeline \<times> services \<times> node \<times> agent_state \<times> calls \<times> node list) \<times>
    (pipeline \<times> services \<times> node \<times> agent_state \<times> calls \<times> node list)) set" where
  "run_graph_order = measure (\<lambda>(P, sv, n, s, c, visited). run_measure P n s)"

function run_graph ::
  "pipeline \<Rightarrow> services \<Rightarrow> node \<Rightarrow> agent_state \<Rightarrow> calls \<Rightarrow> node list \<Rightarrow>
   node list \<times> (error + agent_state \<times> calls)" where
  "run_graph P sv n s c visited =
     (if n = END then (visited, Inr (s, c))
      else (case node_fn P sv n (s, c) of
              Inl e \<Rightarrow> (visited, Inl e)
            | Inr (s', c') \<Rightarrow> run_graph P sv (next_node n s') s' c' (visited @ [n])))"
  by pat_completeness auto
termination
  by (relation run_graph_order) (auto simp: run_graph_order_def run_measure_decreases)

section \<open>The public operations\<close>

text \<open>
  The graph is compiled with a checkpointer: a run on a thread that already has a saved
  state starts from that state with the new question written over the old one, and a run
  on a new thread starts from the question alone. \<open>checkpoints\<close> is what the checkpointer
  holds and \<open>fresh_id\<close> the thread name made from \<^verbatim>\<open>uuid4\<close>.
\<close>

definition empty_state :: "string \<Rightarrow> agent_state" where
  "empty_state q =
     \<lparr>question = q, question_complexity = None, question_type = None, estimated_hops = None,
      required_evidence_types = None, key_aspects = None, sub_questions = None,
      current_query_batch = None, parallel_results = None, fused_results = None,
      context_quality_score = None, coverage_score = None, evidence_strength = None,
      detected_contradictions = None, information_gaps = None, sufficiency_assessment = None,
      key_findings = None, decision_factors = None, continue_probability = None,
      stop_reasons = None, recent_quality_improvements = None, answer_confidence = None,
      iteration = None, max_dynamic_iters = None, stop = None, evidence_docs = None,
      last_batch = None, evidence_hints = None, gaps = None, final_answer = None,
      grounded_ok = None, sub_question = None\<rparr>"

definition initial_state :: "agent_state option \<Rightarrow> string \<Rightarrow> agent_state" where
  "initial_state checkpoint q =
     (case checkpoint of None \<Rightarrow> empty_state q | Some saved \<Rightarrow> saved\<lparr>question := q\<rparr>)"

definition thread_of :: "string option \<Rightarrow> string \<Rightarrow> string" where
  \<comment> \<open>\<^verbatim>\<open>thread_id or f"enhanced-rag-{uuid4().hex}"\<close>\<close>
  "thread_of thread_id fresh_id =
     (case thread_id of None \<Rightarrow> fresh_id | Some t \<Rightarrow> if t = [] then fresh_id else t)"

definition no_calls :: calls where
  "no_calls = \<lparr>llm_calls = 0, retriever_calls = 0\<rparr>"

record debug_info =
  dbg_iterations :: int
  dbg_evidence_count :: nat
  dbg_grounded_ok :: "bool option"
  dbg_question_complexity :: json
  dbg_context_quality_score :: json
  dbg_coverage_score :: json
  dbg_answer_confidence :: json
  dbg_stop_reasons :: json
  dbg_last_gaps :: json
  dbg_last_sub_question :: json

definition ask ::
  "pipeline \<Rightarrow> services \<Rightarrow> (string \<Rightarrow> agent_state option) \<Rightarrow> string \<Rightarrow>
   string \<Rightarrow> int option \<Rightarrow> string option \<Rightarrow> error + string \<times> debug_info" where
  "ask P sv checkpoints fresh_id q max_iters_arg thread_id =
     (let mi = (case max_iters_arg of Some m \<Rightarrow> m | None \<Rightarrow> default_max_iters P);
          tid = thread_of thread_id fresh_id
      in case snd (run_graph P sv AnalyzeQuestion (initial_state (checkpoints tid) q) no_calls []) of
           Inl e \<Rightarrow> Inl e
         | Inr (final_state, c) \<Rightarrow>
             and_then (py_last_n 3 (get_or (information_gaps final_state) (JList [])))
               (\<lambda>last_gaps.
             Inr (get_or (final_answer final_state) [],
                  \<lparr>dbg_iterations = get_or (iteration final_state) 0,
                   dbg_evidence_count = length (get_or (evidence_docs final_state) []),
                   dbg_grounded_ok = grounded_ok final_state,
                   dbg_question_complexity = get_or (question_complexity final_state) (JFloat 0),
                   dbg_context_quality_score =
                     get_or (context_quality_score final_state) (JFloat 0),
                   dbg_coverage_score = get_or (coverage_score final_state) (JFloat 0),
                   dbg_answer_confidence = get_or (answer_confidence final_state) (JFloat 0),
                   dbg_stop_reasons = get_or (stop_reasons final_state) (JList []),
                   dbg_last_gaps = last_gaps,
                   dbg_last_sub_question = get_or (sub_question final_state) (JStr [])\<rparr>)))"

text \<open>
  The streaming operation yields one event for every node that completed (a node's update
  has no \<^verbatim>\<open>input\<close> or \<^verbatim>\<open>output\<close> key, so both read as \<^verbatim>\<open>None\<close>), then runs the graph a second
  time on the same thread and yields the final state. The result is the list of events
  yielded and the exception that ended the generator, if one did.
\<close>

datatype stream_event = NodeEvent node "json option" "json option" | FinalEvent agent_state

definition stream ::
  "pipeline \<Rightarrow> services \<Rightarrow> (string \<Rightarrow> agent_state option) \<Rightarrow> string \<Rightarrow>
   string \<Rightarrow> int option \<Rightarrow> string option \<Rightarrow> stream_event list \<times> error option" where
  "stream P sv checkpoints fresh_id q max_iters_arg thread_id =
     (let mi = (case max_iters_arg of Some m \<Rightarrow> m | None \<Rightarrow> default_max_iters P);
          tid = thread_of thread_id fresh_id
      in case run_graph P sv AnalyzeQuestion (initial_state (checkpoints tid) q) no_calls [] of
           (visited, first_run) \<Rightarrow>
             (let events = map (\<lambda>n. NodeEvent n None None) visited
              in case first_run of
                   Inl e \<Rightarrow> (events, Some e)
                 | Inr (s1, c1) \<Rightarrow>
                     (case snd (run_graph P sv AnalyzeQuestion (s1\<lparr>question := q\<rparr>) c1 []) of
                        Inl e \<Rightarrow> (events, Some e)
                      | Inr (final_state, c2) \<Rightarrow> (events @ [FinalEvent final_state], None))))"

subsection \<open>The question-answering endpoint\<close>

text \<open>
  \<^verbatim>\<open>policy_qa\<close> of \<^verbatim>\<open>backend/app.py\<close>. The whole body stands in one \<^verbatim>\<open>try\<close> whose only handler
  is \<^verbatim>\<open>except Exception\<close>, which answers with status 500; \<^verbatim>\<open>HTTPException\<close> is an
  \<^verbatim>\<open>Exception\<close>. The second component of the result lists the calls of \<^verbatim>\<open>rag_pipeline.ask\<close>
  made, as (question, thread id). The debug information of \<^verbatim>\<open>ask\<close> has no \<^verbatim>\<open>evidence_docs\<close>
  entry, so the list the endpoint adds under that key is always empty and is left out.
\<close>

record policy_qa_request =
  req_question :: string
  req_thread_id :: string

datatype raised = HTTPException nat string | PyError error

datatype http_response =
    JSONResponse nat string debug_info
  | ErrorResponse nat raised

definition rag_pipeline :: pipeline where
  "rag_pipeline = EnhancedRAGPipeline_init 3 1"

definition policy_qa ::
  "services \<Rightarrow> (string \<Rightarrow> agent_state option) \<Rightarrow> string \<Rightarrow> policy_qa_request \<Rightarrow>
   http_response \<times> (string \<times> string) list" where
  "policy_qa sv checkpoints fresh_id request =
     (let attempt =
        (if py_strip (req_question request) = [] then
           (Inl (HTTPException 422 ''Question cannot be empty''), [])
         else
           (case ask rag_pipeline sv checkpoints fresh_id (req_question request) None
                   (Some (req_thread_id request)) of
              Inl e \<Rightarrow> Inl (PyError e)
            | Inr (answer, debug) \<Rightarrow> Inr (JSONResponse 200 answer debug),
            [(req_question request, req_thread_id request)]))
      in case attempt of
           (Inl caught, asked) \<Rightarrow> (ErrorResponse 500 caught, asked)
         | (Inr response, asked) \<Rightarrow> (response, asked))"

section \<open>Concrete services for the examples\<close>

text \<open>
  The values of \<^verbatim>\<open>json.loads\<close> on the three JSON texts used in the examples; the other text
  used there, \<open>''no json''\<close>, is not JSON, and \<^verbatim>\<open>json.loads\<close> raises on it. \<open>py_str_example\<close> is
  \<^verbatim>\<open>str\<close> on strings, the only values formatted in the examples.
\<close>

definition json_loads_example :: "string \<Rightarrow> json option" where
  \<open>json_loads_example text =
     (if text = ''{}'' then Some (JObj [])
      else if text = ''{"complexity_score": 7, "estimated_hops": 4}''
        then Some (JObj [(''complexity_score'', JInt 7), (''estimated_hops'', JInt 4)])
      else if text = ''{"sub_questions": [{"priority": 1.0}]}''
        then Some (JObj [(''sub_questions'', JList [JObj [(''priority'', JFloat 1)]])])
      else None)\<close>

definition py_str_example :: "json \<Rightarrow> string" where
  "py_str_example v = (case v of JStr s \<Rightarrow> s | _ \<Rightarrow> [])"

definition example_services :: "string \<Rightarrow> document list \<Rightarrow> services" where
  \<comment> \<open>every completion is \<open>answer\<close>, every retriever call returns \<open>docs\<close>\<close>
  "example_services answer docs =
     \<lparr>llm_invoke = (\<lambda>role n. Inr answer),
      retriever_invoke = (\<lambda>n mode query. Inr docs),
      json_loads = json_loads_example,
      py_str = py_str_example\<rparr>"

lemmas example_defs = example_services_def json_loads_example_def py_str_example_def
  empty_state_def no_calls_def rag_pipeline_def EnhancedRAGPipeline_init_def

lemmas python_defs = and_then_def get_or_def chain_invoke_def safe_json_parse_def
  str_find_def str_rfind_def dict_get_def dict_index_def py_mul_float_def py_div_float_def
  py_true_div_def py_sub_def py_int_def py_last_n_def last_n_def str_lower_def lower_char_def
  py_strip_def is_space_def

section \<open>Invariants of a run\<close>

lemma run_graph_invariant:
  assumes "run_graph P sv n s c visited = (visited', Inr (sf, cf))"
    and "I n s"
    and "\<And>n s c s' c'. n \<noteq> END \<Longrightarrow> I n s \<Longrightarrow> node_fn P sv n (s, c) = Inr (s', c') \<Longrightarrow>
           I (next_node n s') s'"
  shows "I END sf"
  using assms
proof (induction P sv n s c visited rule: run_graph.induct)
  case (1 P sv n s c visited)
  show ?case
  proof (cases "n = END")
    case True
    with "1.prems"(1,2) show ?thesis by simp
  next
    case False
    with "1.prems"(1) obtain s' c' where
      node: "node_fn P sv n (s, c) = Inr (s', c')"
      and rest: "run_graph P sv (next_node n s') s' c' (visited @ [n]) = (visited', Inr (sf, cf))"
      by (subst (asm) run_graph.simps) (auto split: sum.splits)
    have "I (next_node n s') s'"
      using "1.prems"(3) [OF False "1.prems"(2) node] .
    from "1.IH" [OF False node refl rest this "1.prems"(3)] show ?thesis by simp
  qed
qed

lemma analyze_question_control:
  assumes "analyze_question P sv (s, c) = Inr (s', c')"
  shows "iteration s' = Some 0 \<and> evidence_docs s' = Some [] \<and>
         (\<exists>m. max_dynamic_iters s' = Some m)"
proof -
  from assms obtain complexity hops qtype ev_types aspects a b where
    "s' = s\<lparr>question_complexity := Some complexity,
            question_type := Some qtype,
            estimated_hops := Some hops,
            required_evidence_types := Some ev_types,
            key_aspects := Some aspects,
            max_dynamic_iters := Some (min (default_max_iters P) (max 2 (py_int (a + b)))),
            iteration := Some 0,
            evidence_docs := Some [],
            evidence_hints := Some [],
            gaps := Some (JList []),
            recent_quality_improvements := Some [],
            context_quality_score := Some (JFloat 0),
            coverage_score := Some (JFloat 0),
            evidence_strength := Some (JFloat 0),
            information_gaps := Some (JList []),
            detected_contradictions := Some (JList []),
            key_findings := Some (JList [])\<rparr>"
    by (rule analyze_question_shape)
  then show ?thesis by simp
qed

lemma enhanced_plan_frame:
  assumes "enhanced_plan P sv (s, c) = Inr (s', c')"
  shows "iteration s' = iteration s \<and> max_dynamic_iters s' = max_dynamic_iters s \<and>
         evidence_docs s' = evidence_docs s \<and> question_complexity s' = question_complexity s \<and>
         estimated_hops s' = estimated_hops s"
  using assms by (elim enhanced_plan_shape) simp

lemma parallel_retrieve_frame:
  assumes "parallel_retrieve P sv (s, c) = Inr (s', c')"
  shows "iteration s' = iteration s \<and> max_dynamic_iters s' = max_dynamic_iters s \<and>
         question_complexity s' = question_complexity s \<and>
         estimated_hops s' = estimated_hops s"
  using assms by (elim parallel_retrieve_shape) simp

lemma advanced_assess_frame:
  assumes "advanced_assess P sv (s, c) = Inr (s', c')"
  shows "iteration s' = iteration s \<and> max_dynamic_iters s' = max_dynamic_iters s \<and>
         evidence_docs s' = evidence_docs s \<and> question_complexity s' = question_complexity s \<and>
         estimated_hops s' = estimated_hops s"
  using assms by (elim advanced_assess_shape) simp

lemma intelligent_decide_frame:
  assumes "intelligent_decide P sv (s, c) = Inr (s', c')"
  shows "max_dynamic_iters s' = max_dynamic_iters s \<and>
         evidence_docs s' = evidence_docs s \<and> question_complexity s' = question_complexity s \<and>
         estimated_hops s' = estimated_hops s"
  using assms by (elim intelligent_decide_shape) simp

lemma enhanced_synthesis_frame:
  assumes "enhanced_synthesis P sv (s, c) = Inr (s', c')"
  shows "iteration s' = iteration s \<and> max_dynamic_iters s' = max_dynamic_iters s \<and>
         evidence_docs s' = evidence_docs s \<and> question_complexity s' = question_complexity s \<and>
         estimated_hops s' = estimated_hops s"
  using assms by (elim enhanced_synthesis_shape) simp

lemma advanced_verify_frame:
  assumes "advanced_verify P sv (s, c) = Inr (s', c')"
  shows "iteration s' = iteration s \<and> max_dynamic_iters s' = max_dynamic_iters s \<and>
         evidence_docs s' = evidence_docs s \<and> question_complexity s' = question_complexity s \<and>
         estimated_hops s' = estimated_hops s"
  using assms by (elim advanced_verify_shape) simp

lemma intelligent_decide_verdict:
  assumes "intelligent_decide P sv (s, c) = Inr (s', c')"
  shows "iteration s' = Some (get_or (iteration s) 0 + 1)"
    and "get_or (max_dynamic_iters s) (default_max_iters P) \<noteq> 0"
    and "\<exists>b. stop s' = Some b"
    and "get_or (iteration s) 0 + 1 < min_iters P \<Longrightarrow> stop s' = Some False"
    and "min_iters P \<le> get_or (iteration s) 0 + 1 \<Longrightarrow>
         get_or (max_dynamic_iters s) (default_max_iters P) \<le> get_or (iteration s) 0 + 1 \<Longrightarrow>
         stop s' = Some True"
proof -
  from assms obtain b df cp sr where
    s': "s' = s\<lparr>stop := Some b, iteration := Some (get_or (iteration s) 0 + 1),
            decision_factors := Some df, continue_probability := Some cp,
            stop_reasons := Some sr\<rparr>"
    and "c' = c\<lparr>llm_calls := Suc (llm_calls c)\<rparr>"
    and M0: "get_or (max_dynamic_iters s) (default_max_iters P) \<noteq> 0"
    and floor: "get_or (iteration s) 0 + 1 < min_iters P \<Longrightarrow> \<not> b"
    and ceiling: "\<not> get_or (iteration s) 0 + 1 < min_iters P \<Longrightarrow>
         get_or (max_dynamic_iters s) (default_max_iters P) \<le> get_or (iteration s) 0 + 1 \<Longrightarrow> b"
    by (rule intelligent_decide_shape) blast
  show "iteration s' = Some (get_or (iteration s) 0 + 1)" by (simp add: s')
  show "get_or (max_dynamic_iters s) (default_max_iters P) \<noteq> 0" by (rule M0)
  show "\<exists>b. stop s' = Some b" by (simp add: s')
  show "stop s' = Some False" if "get_or (iteration s) 0 + 1 < min_iters P"
    using floor [OF that] by (simp add: s')
  show "stop s' = Some True"
    if "min_iters P \<le> get_or (iteration s) 0 + 1"
      and "get_or (max_dynamic_iters s) (default_max_iters P) \<le> get_or (iteration s) 0 + 1"
  proof -
    from that(1) have "\<not> get_or (iteration s) 0 + 1 < min_iters P" by simp
    from ceiling [OF this that(2)] show ?thesis by (simp add: s')
  qed
qed

definition loop_node :: "node \<Rightarrow> bool" where
  "loop_node n = (n = EnhancedPlan \<or> n = ParallelRetrieve \<or> n = AdvancedAssess \<or>
                  n = IntelligentDecide)"

definition iteration_inv :: "pipeline \<Rightarrow> node \<Rightarrow> agent_state \<Rightarrow> bool" where
  "iteration_inv P n s =
     (n = AnalyzeQuestion \<or>
      (\<exists>i M. iteration s = Some i \<and> max_dynamic_iters s = Some M \<and>
         (min_iters P \<le> M \<longrightarrow>
            (if loop_node n then M \<noteq> 0 \<longrightarrow> i < M else min_iters P \<le> i \<and> i \<le> M))))"

lemma iteration_inv_loopI:
  "iteration s = Some i \<Longrightarrow> max_dynamic_iters s = Some M \<Longrightarrow> loop_node n \<Longrightarrow>
   (min_iters P \<le> M \<Longrightarrow> M \<noteq> 0 \<Longrightarrow> i < M) \<Longrightarrow> iteration_inv P n s"
  by (auto simp: iteration_inv_def)

lemma iteration_inv_doneI:
  "iteration s = Some i \<Longrightarrow> max_dynamic_iters s = Some M \<Longrightarrow> \<not> loop_node n \<Longrightarrow>
   (min_iters P \<le> M \<Longrightarrow> min_iters P \<le> i \<and> i \<le> M) \<Longrightarrow> iteration_inv P n s"
  by (auto simp: iteration_inv_def)

lemma iteration_inv_frame:
  "iteration_inv P n s \<Longrightarrow> n \<noteq> AnalyzeQuestion \<Longrightarrow> loop_node n' = loop_node n \<Longrightarrow>
   iteration s' = iteration s \<Longrightarrow> max_dynamic_iters s' = max_dynamic_iters s \<Longrightarrow>
   iteration_inv P n' s'"
  by (simp add: iteration_inv_def)

lemma iteration_inv_step:
  assumes "0 \<le> min_iters P" and "n \<noteq> END" and "iteration_inv P n s"
    and "node_fn P sv n (s, c) = Inr (s', c')"
  shows "iteration_inv P (next_node n s') s'"
proof (cases n)
  case AnalyzeQuestion
  with assms(4) have "analyze_question P sv (s, c) = Inr (s', c')" by simp
  from analyze_question_control [OF this] obtain m where
    i: "iteration s' = Some 0" and m: "max_dynamic_iters s' = Some m" by blast
  have "iteration_inv P EnhancedPlan s'"
    using i m
  proof (rule iteration_inv_loopI)
    show "loop_node EnhancedPlan" by (simp add: loop_node_def)
    show "0 < m" if "min_iters P \<le> m" "m \<noteq> 0" using that assms(1) by linarith
  qed
  then show ?thesis using AnalyzeQuestion by simp
next
  case EnhancedPlan
  with assms(4) have "enhanced_plan P sv (s, c) = Inr (s', c')" by simp
  from enhanced_plan_frame [OF this] show ?thesis
    using EnhancedPlan assms(3)
    by (rule_tac n = n and s = s in iteration_inv_frame) (simp_all add: loop_node_def)
next
  case ParallelRetrieve
  with assms(4) have "parallel_retrieve P sv (s, c) = Inr (s', c')" by simp
  from parallel_retrieve_frame [OF this] show ?thesis
    using ParallelRetrieve assms(3)
    by (rule_tac n = n and s = s in iteration_inv_frame) (simp_all add: loop_node_def)
next
  case AdvancedAssess
  with assms(4) have "advanced_assess P sv (s, c) = Inr (s', c')" by simp
  from advanced_assess_frame [OF this] show ?thesis
    using AdvancedAssess assms(3)
    by (rule_tac n = n and s = s in iteration_inv_frame) (simp_all add: loop_node_def)
next
  case IntelligentDecide
  with assms(4) have d: "intelligent_decide P sv (s, c) = Inr (s', c')" by simp
  from assms(3) IntelligentDecide obtain i M where
    i: "iteration s = Some i" and M: "max_dynamic_iters s = Some M"
    and inv: "min_iters P \<le> M \<longrightarrow> M \<noteq> 0 \<longrightarrow> i < M"
    by (auto simp: iteration_inv_def loop_node_def)
  have gi: "get_or (iteration s) 0 = i" and gM: "get_or (max_dynamic_iters s) (default_max_iters P) = M"
    by (simp_all add: i M get_or_def)
  note v = intelligent_decide_verdict [OF d, unfolded gi gM]
  have M': "max_dynamic_iters s' = Some M"
    using intelligent_decide_frame [OF d] M by simp
  from v(3) obtain b where b: "stop s' = Some b" by blast
  show ?thesis
  proof (cases b)
    case True
    have "iteration_inv P EnhancedSynthesis s'"
      using v(1) M'
    proof (rule iteration_inv_doneI)
      show "\<not> loop_node EnhancedSynthesis" by (simp add: loop_node_def)
      show "min_iters P \<le> i + 1 \<and> i + 1 \<le> M" if le: "min_iters P \<le> M"
      proof
        show "min_iters P \<le> i + 1"
        proof (rule ccontr)
          assume "\<not> min_iters P \<le> i + 1"
          then have "i + 1 < min_iters P" by simp
          from v(4) [OF this] b True show False by simp
        qed
        from inv le v(2) have "i < M" by simp
        then show "i + 1 \<le> M" by simp
      qed
    qed
    then show ?thesis using IntelligentDecide b True by (simp add: get_or_def)
  next
    case False
    have "iteration_inv P EnhancedPlan s'"
      using v(1) M'
    proof (rule iteration_inv_loopI)
      show "loop_node EnhancedPlan" by (simp add: loop_node_def)
      show "i + 1 < M" if le: "min_iters P \<le> M" and "M \<noteq> 0"
      proof (rule ccontr)
        assume "\<not> i + 1 < M"
        then have 1: "M \<le> i + 1" by simp
        with le have "min_iters P \<le> i + 1" by simp
        from v(5) [OF this 1] b False show False by simp
      qed
    qed
    then show ?thesis using IntelligentDecide b False by (simp add: get_or_def)
  qed
next
  case EnhancedSynthesis
  with assms(4) have "enhanced_synthesis P sv (s, c) = Inr (s', c')" by simp
  from enhanced_synthesis_frame [OF this] show ?thesis
    using EnhancedSynthesis assms(3)
    by (rule_tac n = n and s = s in iteration_inv_frame) (simp_all add: loop_node_def)
next
  case AdvancedVerify
  with assms(4) have "advanced_verify P sv (s, c) = Inr (s', c')" by simp
  from advanced_verify_frame [OF this] show ?thesis
    using AdvancedVerify assms(3)
    by (rule_tac n = n and s = s in iteration_inv_frame) (simp_all add: loop_node_def)
next
  case END
  with assms(2) show ?thesis by simp
qed









subsection \<open>The run, step by step\<close>

text \<open>
  The state of a run after \<open>k\<close> node executions: \<open>run_step\<close> is one turn of the engine (the
  body of \<open>run_graph\<close>), and \<open>run_steps k\<close> repeats it \<open>k\<close> times from a start configuration.
\<close>

definition run_step ::
  "pipeline \<Rightarrow> services \<Rightarrow> node \<times> agent_state \<times> calls \<Rightarrow> error + node \<times> agent_state \<times> calls" where
  "run_step P sv x =
     (case x of (n, s, c) \<Rightarrow>
        if n = END then Inr (n, s, c)
        else (case node_fn P sv n (s, c) of
                Inl e \<Rightarrow> Inl e
              | Inr (s', c') \<Rightarrow> Inr (next_node n s', s', c')))"

fun run_steps ::
  "pipeline \<Rightarrow> services \<Rightarrow> nat \<Rightarrow> node \<times> agent_state \<times> calls \<Rightarrow>
   error + node \<times> agent_state \<times> calls" where
  "run_steps P sv 0 x = Inr x"
| "run_steps P sv (Suc k) x =
     (case run_steps P sv k x of Inl e \<Rightarrow> Inl e | Inr y \<Rightarrow> run_step P sv y)"

lemma run_steps_shift:
  "run_step P sv x = Inr y \<Longrightarrow> run_steps P sv (Suc k) x = run_steps P sv k y"
  by (induction k) (simp_all split: sum.splits)

lemma run_graph_run_steps:
  assumes "run_graph P sv n s c visited = (visited', Inr (sf, cf))"
  shows "\<exists>k. run_steps P sv k (n, s, c) = Inr (END, sf, cf)"
  using assms
proof (induction P sv n s c visited rule: run_graph.induct)
  case (1 P sv n s c visited)
  show ?case
  proof (cases "n = END")
    case True
    with "1.prems" have "run_steps P sv 0 (n, s, c) = Inr (END, sf, cf)" by simp
    then show ?thesis by blast
  next
    case False
    with "1.prems" obtain s' c' where
      node: "node_fn P sv n (s, c) = Inr (s', c')"
      and rest: "run_graph P sv (next_node n s') s' c' (visited @ [n]) = (visited', Inr (sf, cf))"
      by (subst (asm) run_graph.simps) (auto split: sum.splits)
    from "1.IH" [OF False node refl rest] obtain k where
      k: "run_steps P sv k (next_node n s', s', c') = Inr (END, sf, cf)" by blast
    have "run_step P sv (n, s, c) = Inr (next_node n s', s', c')"
      using False node by (simp add: run_step_def)
    from run_steps_shift [OF this, of k] k
    have "run_steps P sv (Suc k) (n, s, c) = Inr (END, sf, cf)" by simp
    then show ?thesis by blast
  qed
qed

definition evidence_inv :: "node \<Rightarrow> agent_state \<Rightarrow> bool" where
  "evidence_inv n s =
     (n = AnalyzeQuestion \<or>
      (\<exists>docs. evidence_docs s = Some docs \<and> distinct (map doc_key docs)))"

lemma node_grows_evidence:
  assumes "n \<noteq> AnalyzeQuestion" and "evidence_inv n s"
    and "node_fn P sv n (s, c) = Inr (s', c')"
  shows "\<exists>old added. evidence_docs s = Some old \<and> evidence_docs s' = Some (old @ added) \<and>
           distinct (map doc_key (old @ added)) \<and> (n \<noteq> ParallelRetrieve \<longrightarrow> added = [])"
proof -
  from assms(1,2) obtain old where
    old: "evidence_docs s = Some old" and d: "distinct (map doc_key old)"
    by (auto simp: evidence_inv_def)
  have same: "evidence_docs s' = evidence_docs s \<Longrightarrow> ?thesis"
    using old d by simp
  show ?thesis
  proof (cases n)
    case AnalyzeQuestion
    with assms(1) show ?thesis by simp
  next
    case EnhancedPlan
    with assms(3) have "enhanced_plan P sv (s, c) = Inr (s', c')" by simp
    from enhanced_plan_frame [OF this] show ?thesis by (intro same) simp
  next
    case ParallelRetrieve
    with assms(3) have "parallel_retrieve P sv (s, c) = Inr (s', c')" by simp
    then obtain results all_docs fused updated hints k where
      s': "s' = s\<lparr>parallel_results := Some results, fused_results := Some fused,
            last_batch := Some fused, evidence_docs := Some updated,
            evidence_hints := Some hints\<rparr>"
      and m: "merge_evidence (get_or (evidence_docs s) []) all_docs = Inr (fused, updated)"
      by (rule parallel_retrieve_shape)
    from m old have m': "merge_evidence old all_docs = Inr (fused, updated)"
      by (simp add: get_or_def)
    from merge_evidence_extends [OF m' d] obtain added where
      "updated = old @ added" and "distinct (map doc_key updated)" by blast
    then show ?thesis using old s' ParallelRetrieve by simp
  next
    case AdvancedAssess
    with assms(3) have "advanced_assess P sv (s, c) = Inr (s', c')" by simp
    from advanced_assess_frame [OF this] show ?thesis by (intro same) simp
  next
    case IntelligentDecide
    with assms(3) have "intelligent_decide P sv (s, c) = Inr (s', c')" by simp
    from intelligent_decide_frame [OF this] show ?thesis by (intro same) simp
  next
    case EnhancedSynthesis
    with assms(3) have "enhanced_synthesis P sv (s, c) = Inr (s', c')" by simp
    from enhanced_synthesis_frame [OF this] show ?thesis by (intro same) simp
  next
    case AdvancedVerify
    with assms(3) have "advanced_verify P sv (s, c) = Inr (s', c')" by simp
    from advanced_verify_frame [OF this] show ?thesis by (intro same) simp
  next
    case END
    with assms(3) show ?thesis by (intro same) simp
  qed
qed

lemma evidence_inv_step:
  assumes "n \<noteq> END" and "evidence_inv n s" and "node_fn P sv n (s, c) = Inr (s', c')"
  shows "evidence_inv (next_node n s') s'"
proof (cases "n = AnalyzeQuestion")
  case True
  with assms(3) have "analyze_question P sv (s, c) = Inr (s', c')" by simp
  from analyze_question_control [OF this] show ?thesis
    by (simp add: evidence_inv_def)
next
  case False
  from node_grows_evidence [OF False assms(2,3)] show ?thesis
    by (auto simp: evidence_inv_def)
qed

lemma run_steps_evidence_inv:
  "run_steps P sv k (AnalyzeQuestion, s0, c0) = Inr (n, s, c) \<Longrightarrow> evidence_inv n s"
proof (induction k arbitrary: n s c)
  case 0
  then show ?case by (simp add: evidence_inv_def)
next
  case (Suc k)
  from Suc.prems obtain n1 s1 c1 where
    k: "run_steps P sv k (AnalyzeQuestion, s0, c0) = Inr (n1, s1, c1)"
    and step: "run_step P sv (n1, s1, c1) = Inr (n, s, c)"
    by (auto split: sum.splits)
  note inv = Suc.IH [OF k]
  show ?case
  proof (cases "n1 = END")
    case True
    with step inv show ?thesis by (simp add: run_step_def)
  next
    case False
    with step obtain s' c' where
      node: "node_fn P sv n1 (s1, c1) = Inr (s', c')" and eq: "n = next_node n1 s'" "s = s'"
      by (auto simp: run_step_def split: sum.splits)
    from evidence_inv_step [OF False inv node] eq show ?thesis by simp
  qed
qed

lemmas node_defs = analyze_question_def enhanced_plan_def parallel_retrieve_def
  advanced_assess_def intelligent_decide_def enhanced_synthesis_def advanced_verify_def
  default_analysis_def default_planning_def default_assessment_def default_decision_def
  default_verification_def append_stop_reason_def sort_by_priority_def sort_desc_def
  retrieve_with_strategy_def merge_evidence_def dedupe_docs_def doc_key_def meta_get_def
  hint_of_def first_line_def is_line_boundary_def Let_def

section \<open>Verified properties\<close>


definition passage_a :: document where
  "passage_a = \<lparr>page_content = ''Flood damage is covered.'',
                 metadata = [(''source'', JStr ''doc.pdf''), (''page'', JInt 3)]\<rparr>"

definition passage_b :: document where
  "passage_b = \<lparr>page_content = ''Flood damage is excluded.'',
                 metadata = [(''source'', JStr ''doc.pdf''), (''page'', JInt 3)]\<rparr>"

definition passage_c :: document where
  "passage_c = \<lparr>page_content = ''Claims are filed within 30 days.'',
                 metadata = [(''source'', JStr ''doc.pdf''), (''page'', JInt 4)]\<rparr>"




text \<open>
  Claim C6. Merging into the Evidence Accumulator is idempotent: for every accumulator and
  every list of retrieved passages, when the merge of the list returns, merging the same
  list into the result again returns the same fused batch and the same accumulator.
\<close>

theorem merge_evidence_idempotent:
  assumes "merge_evidence acc docs = Inr (fused, acc')"
  shows "merge_evidence acc' docs = Inr (fused, acc')"
  using merge_evidenceE [OF assms] dedupe_docs_absorb [of acc fused acc']
  by (simp add: merge_evidence_def)

theorem merge_evidence_idempotent_witness:
  "merge_evidence [passage_a] [passage_b, passage_c, passage_c] =
     Inr ([passage_b, passage_c], [passage_a, passage_c]) \<and>
   merge_evidence [passage_a, passage_c] [passage_b, passage_c, passage_c] =
     Inr ([passage_b, passage_c], [passage_a, passage_c])"
proof -
  have "merge_evidence [passage_a] [passage_b, passage_c, passage_c] =
     Inr ([passage_b, passage_c], [passage_a, passage_c])"
    by (simp add: merge_evidence_def dedupe_docs_def doc_key_def meta_get_def
        passage_a_def passage_b_def passage_c_def)
  from this merge_evidence_idempotent [OF this] show ?thesis by simp
qed

text \<open>
  Claim C7. When the Evidence Accumulator is empty (or was never written) at the moment
  synthesis is reached, the Synthesizer returns the fixed no-evidence answer with
  confidence 0.0 and makes no oracle call: the counters of calls are unchanged, whatever
  the services are. The run then ends after verification with that answer, again without
  any call.
\<close>

theorem synthesis_without_evidence:
  assumes "get_or (evidence_docs s) [] = []"
  shows "enhanced_synthesis P sv (s, c) =
           Inr (s\<lparr>final_answer := Some no_evidence_answer,
                   answer_confidence := Some (JFloat 0)\<rparr>, c) \<and>
         run_graph P sv EnhancedSynthesis s c visited =
           (visited @ [EnhancedSynthesis, AdvancedVerify],
            Inr (s\<lparr>final_answer := Some no_evidence_answer,
                    answer_confidence := Some (JFloat 0),
                    grounded_ok := Some False\<rparr>, c))"
  using assms
  by (simp add: enhanced_synthesis_def advanced_verify_def)

theorem synthesis_without_evidence_witness:
  "get_or (evidence_docs (empty_state ''Is flood damage covered?'')) [] = [] \<and>
   enhanced_synthesis rag_pipeline (example_services ''no json'' [])
       (empty_state ''Is flood damage covered?'', no_calls) =
     Inr ((empty_state ''Is flood damage covered?'')
            \<lparr>final_answer := Some no_evidence_answer, answer_confidence := Some (JFloat 0)\<rparr>,
          no_calls)"
proof -
  have "get_or (evidence_docs (empty_state ''Is flood damage covered?'')) [] = []"
    by (simp add: empty_state_def get_or_def)
  from this synthesis_without_evidence [OF this] show ?thesis by blast
qed

text \<open>
  Claim C8. When the Verifier's verdict is "fail" (its short-circuit included), the
  verification step changes nothing in the state but the groundedness flag, which it sets
  to false; the edge out of the verification node leads to the terminal state, so the run
  ends there with that state, and no retriever call is made.
\<close>

theorem verifier_fail_is_advisory:
  assumes "advanced_verify P sv (s, c) = Inr (s', c')"
    and "grounded_ok s' = Some False"
  shows "s' = s\<lparr>grounded_ok := Some False\<rparr> \<and>
         next_node AdvancedVerify s' = END \<and>
         run_graph P sv AdvancedVerify s c visited = (visited @ [AdvancedVerify], Inr (s', c')) \<and>
         retriever_calls c' = retriever_calls c"
proof -
  from assms(1) obtain b where b: "s' = s\<lparr>grounded_ok := Some b\<rparr>"
    by (rule advanced_verify_shape)
  with assms(2) have "s' = s\<lparr>grounded_ok := Some False\<rparr>" by simp
  moreover have "retriever_calls c' = retriever_calls c"
    using assms(1)
    by (auto simp: advanced_verify_def Let_def split: if_splits prod.splits
        elim!: and_thenE dest!: chain_invoke_calls)
  ultimately show ?thesis using assms(1) by simp
qed

definition answered_state :: agent_state where
  "answered_state = (empty_state ''Is flood damage covered?'')
     \<lparr>evidence_docs := Some [passage_a], final_answer := Some ''Yes [S1].''\<rparr>"

lemma verify_example:
  "advanced_verify rag_pipeline (example_services ''no json'' []) (answered_state, no_calls) =
     Inr (answered_state\<lparr>grounded_ok := Some False\<rparr>, \<lparr>llm_calls = 1, retriever_calls = 0\<rparr>)"
  by (simp add: advanced_verify_def answered_state_def default_verification_def
      example_defs python_defs)

theorem verifier_fail_is_advisory_witness:
  "advanced_verify rag_pipeline (example_services ''no json'' []) (answered_state, no_calls) =
     Inr (answered_state\<lparr>grounded_ok := Some False\<rparr>, \<lparr>llm_calls = 1, retriever_calls = 0\<rparr>) \<and>
   grounded_ok (answered_state\<lparr>grounded_ok := Some False\<rparr>) = Some False \<and>
   next_node AdvancedVerify (answered_state\<lparr>grounded_ok := Some False\<rparr>) = END \<and>
   run_graph rag_pipeline (example_services ''no json'' []) AdvancedVerify answered_state no_calls
       [EnhancedSynthesis] =
     ([EnhancedSynthesis, AdvancedVerify],
      Inr (answered_state\<lparr>grounded_ok := Some False\<rparr>, \<lparr>llm_calls = 1, retriever_calls = 0\<rparr>))"
proof -
  have "grounded_ok (answered_state\<lparr>grounded_ok := Some False\<rparr>) = Some False" by simp
  from verifier_fail_is_advisory [OF verify_example this, of "[EnhancedSynthesis]"]
    verify_example this
  show ?thesis by simp
qed

text \<open>
  Claim C10. The \<^verbatim>\<open>max_iters\<close> argument of \<^verbatim>\<open>ask\<close> and of \<^verbatim>\<open>stream\<close> has no effect: it is bound
  to a local variable that nothing reads, so two calls that differ only in this argument
  (also when one omits it) give the same result on the same services and checkpoints.
\<close>

theorem max_iters_argument_unused:
  "ask P sv checkpoints fresh_id q m1 thread_id = ask P sv checkpoints fresh_id q m2 thread_id \<and>
   stream P sv checkpoints fresh_id q m1 thread_id = stream P sv checkpoints fresh_id q m2 thread_id"
  by (simp add: ask_def stream_def Let_def)

text \<open>
  Claim C9. A request with an empty question does not reach the pipeline, but the caller
  does not receive a client error: the \<^verbatim>\<open>HTTPException\<close> with status 422 raised by the guard
  is caught by the handler \<^verbatim>\<open>except Exception\<close> of the same function and answered with
  status 500.
\<close>

theorem policy_qa_empty_question:
  "policy_qa sv checkpoints fresh_id \<lparr>req_question = [], req_thread_id = ''t1''\<rparr> =
     (ErrorResponse 500 (HTTPException 422 ''Question cannot be empty''), [])"
  by (simp add: policy_qa_def py_strip_def)

text \<open>
  Claim C1. Whatever the oracle answers, a run of a pipeline built by the constructor
  that returns ends with a state whose iteration counter \<open>i\<close> and budget \<open>M\<close> satisfy: if
  \<open>min_iters \<le> M\<close> then \<open>min_iters \<le> i \<le> M\<close>. (A run with budget 0 does not return: the
  controller divides by the budget.) The mechanism: every call of the controller that
  returns adds one to the counter, writes \<open>stop = False\<close> while the new counter is below
  \<open>min_iters\<close>, and writes \<open>stop = True\<close> once the new counter has reached both \<open>min_iters\<close>
  and the budget; the edge out of the controller leads back to planning exactly when
  \<open>stop\<close> is not true.
\<close>

theorem iteration_between_floor_and_ceiling:
  assumes "run_graph (EnhancedRAGPipeline_init mx mn) sv AnalyzeQuestion s0 c0 [] =
             (visited, Inr (sf, cf))"
  shows "(\<exists>i M. iteration sf = Some i \<and> max_dynamic_iters sf = Some M \<and>
            (min_iters (EnhancedRAGPipeline_init mx mn) \<le> M \<longrightarrow>
               min_iters (EnhancedRAGPipeline_init mx mn) \<le> i \<and> i \<le> M)) \<and>
         (\<forall>s c s' c'.
            intelligent_decide (EnhancedRAGPipeline_init mx mn) sv (s, c) = Inr (s', c') \<longrightarrow>
            iteration s' = Some (get_or (iteration s) 0 + 1) \<and>
            (get_or (iteration s) 0 + 1 < min_iters (EnhancedRAGPipeline_init mx mn) \<longrightarrow>
               stop s' = Some False) \<and>
            (min_iters (EnhancedRAGPipeline_init mx mn) \<le> get_or (iteration s) 0 + 1 \<and>
             get_or (max_dynamic_iters s) (default_max_iters (EnhancedRAGPipeline_init mx mn))
               \<le> get_or (iteration s) 0 + 1 \<longrightarrow>
               stop s' = Some True)) \<and>
         (\<forall>s. next_node IntelligentDecide s =
               (if stop s = Some True then EnhancedSynthesis else EnhancedPlan))"
proof (intro conjI allI impI)
  let ?P = "EnhancedRAGPipeline_init mx mn"
  have nonneg: "0 \<le> min_iters ?P" by (simp add: EnhancedRAGPipeline_init_def)
  have "iteration_inv ?P END sf"
    using assms
  proof (rule run_graph_invariant)
    show "iteration_inv ?P AnalyzeQuestion s0" by (simp add: iteration_inv_def)
  next
    fix n s c s' c'
    assume "n \<noteq> END" "iteration_inv ?P n s" "node_fn ?P sv n (s, c) = Inr (s', c')"
    with nonneg show "iteration_inv ?P (next_node n s') s'"
      by (rule iteration_inv_step)
  qed
  then show "\<exists>i M. iteration sf = Some i \<and> max_dynamic_iters sf = Some M \<and>
            (min_iters ?P \<le> M \<longrightarrow> min_iters ?P \<le> i \<and> i \<le> M)"
    by (simp add: iteration_inv_def loop_node_def)
next
  fix s c s' c'
  assume d: "intelligent_decide (EnhancedRAGPipeline_init mx mn) sv (s, c) = Inr (s', c')"
  show "iteration s' = Some (get_or (iteration s) 0 + 1)"
    by (rule intelligent_decide_verdict(1) [OF d])
  show "stop s' = Some False"
    if "get_or (iteration s) 0 + 1 < min_iters (EnhancedRAGPipeline_init mx mn)"
    using that by (rule intelligent_decide_verdict(4) [OF d])
  show "stop s' = Some True"
    if "min_iters (EnhancedRAGPipeline_init mx mn) \<le> get_or (iteration s) 0 + 1 \<and>
        get_or (max_dynamic_iters s) (default_max_iters (EnhancedRAGPipeline_init mx mn))
          \<le> get_or (iteration s) 0 + 1"
    using intelligent_decide_verdict(5) [OF d] that by blast
next
  fix s
  show "next_node IntelligentDecide s =
      (if stop s = Some True then EnhancedSynthesis else EnhancedPlan)"
    by (cases "stop s") (auto simp: get_or_def)
qed

definition example_run :: "node list \<times> (error + agent_state \<times> calls)" where
  "example_run =
     run_graph (EnhancedRAGPipeline_init 3 1) (example_services ''no json'' [passage_a, passage_b])
       AnalyzeQuestion (empty_state ''Is flood damage covered?'') no_calls []"

lemma example_run_returns:
  "\<exists>visited sf cf. example_run = (visited, Inr (sf, cf)) \<and>
     iteration sf = Some 3 \<and> max_dynamic_iters sf = Some 3"
  by (simp add: example_run_def node_defs example_defs python_defs passage_a_def passage_b_def)

theorem iteration_between_floor_and_ceiling_witness:
  "\<exists>visited sf cf. example_run = (visited, Inr (sf, cf)) \<and>
     iteration sf = Some 3 \<and> max_dynamic_iters sf = Some 3 \<and>
     min_iters (EnhancedRAGPipeline_init 3 1) = 1 \<and> (1::int) \<le> 3 \<and> (3::int) \<le> 3"
proof -
  from example_run_returns obtain visited sf cf where
    run: "example_run = (visited, Inr (sf, cf))"
    and it: "iteration sf = Some 3" "max_dynamic_iters sf = Some 3"
    by blast
  from iteration_between_floor_and_ceiling [OF run [unfolded example_run_def]] it
  have "min_iters (EnhancedRAGPipeline_init 3 1) \<le> 3 \<longrightarrow>
        min_iters (EnhancedRAGPipeline_init 3 1) \<le> 3 \<and> (3::int) \<le> 3"
    by auto
  moreover have "min_iters (EnhancedRAGPipeline_init 3 1) = 1"
    by (simp add: EnhancedRAGPipeline_init_def)
  ultimately show ?thesis using run it by auto
qed

text \<open>
  Claim C2. A model answer that parses to an object without the expected fields is not
  always replaced by defaults. When every completion is the JSON text \<open>{}\<close>, the run of
  \<^verbatim>\<open>ask\<close> reaches the last iteration of its budget and the controller raises KeyError at
  \<^verbatim>\<open>decision_result["stop_reasons"].append(...)\<close>; the same holds for the controller alone
  at its final iteration; and the planner raises KeyError at \<^verbatim>\<open>sq["query"]\<close> on a
  sub-question without a query.
\<close>

theorem malformed_output_raises:
  \<open>ask rag_pipeline (example_services ''{}'' []) (\<lambda>t. None) ''enhanced-rag-1''
       ''Is flood damage covered?'' None None = Inl KeyError \<and>
   intelligent_decide rag_pipeline (example_services ''{}'' [])
       ((empty_state ''Is flood damage covered?'')
          \<lparr>iteration := Some 2, max_dynamic_iters := Some 3\<rparr>, no_calls) = Inl KeyError \<and>
   enhanced_plan rag_pipeline (example_services ''{"sub_questions": [{"priority": 1.0}]}'' [])
       (empty_state ''Is flood damage covered?'', no_calls) = Inl KeyError\<close>
  by (simp add: ask_def thread_of_def initial_state_def node_defs example_defs python_defs)







text \<open>
  Claim C5. Within a run the Evidence Accumulator only grows. At every point of a run
  after the analysis (the state after any number of node executions started at the
  Analyzer), the node that runs next leaves an accumulator of which the previous one is a
  prefix: every passage is kept, in its place, and the length does not decrease. Only the
  retrieval node changes the accumulator at all.
\<close>

theorem evidence_accumulator_grows:
  assumes "run_steps P sv k (AnalyzeQuestion, s0, c0) = Inr (n, s, c)"
    and "n \<noteq> AnalyzeQuestion"
    and "node_fn P sv n (s, c) = Inr (s', c')"
  shows "\<exists>old new. evidence_docs s = Some old \<and> evidence_docs s' = Some new \<and>
           prefix old new \<and> set old \<subseteq> set new \<and> length old \<le> length new \<and>
           (n \<noteq> ParallelRetrieve \<longrightarrow> new = old)"
proof -
  from run_steps_evidence_inv [OF assms(1)] have "evidence_inv n s" .
  from node_grows_evidence [OF assms(2) this assms(3)] obtain old added where
    "evidence_docs s = Some old" "evidence_docs s' = Some (old @ added)"
    "n \<noteq> ParallelRetrieve \<longrightarrow> added = []"
    by blast
  then show ?thesis by auto
qed

definition growing_services :: services where
  \<comment> \<open>the first retriever call finds two passages of one page, the later ones a passage
      of that page again and a passage of the next page\<close>
  "growing_services =
     \<lparr>llm_invoke = (\<lambda>role n. Inr ''no json''),
      retriever_invoke =
        (\<lambda>n mode query. Inr (if n = 0 then [passage_a, passage_b] else [passage_b, passage_c])),
      json_loads = json_loads_example,
      py_str = py_str_example\<rparr>"

lemma second_retrieval_example:
  "\<exists>s c s' c'.
     run_steps (EnhancedRAGPipeline_init 3 1) growing_services 6
       (AnalyzeQuestion, empty_state ''Is flood damage covered?'', no_calls) =
       Inr (ParallelRetrieve, s, c) \<and>
     node_fn (EnhancedRAGPipeline_init 3 1) growing_services ParallelRetrieve (s, c) =
       Inr (s', c') \<and>
     evidence_docs s = Some [passage_a] \<and>
     evidence_docs s' = Some [passage_a, passage_c]"
  by (simp add: eval_nat_numeral run_step_def growing_services_def node_defs example_defs
      python_defs passage_a_def passage_b_def passage_c_def)

theorem evidence_accumulator_grows_witness:
  "\<exists>s c s' c'.
     run_steps (EnhancedRAGPipeline_init 3 1) growing_services 6
       (AnalyzeQuestion, empty_state ''Is flood damage covered?'', no_calls) =
       Inr (ParallelRetrieve, s, c) \<and>
     ParallelRetrieve \<noteq> AnalyzeQuestion \<and>
     node_fn (EnhancedRAGPipeline_init 3 1) growing_services ParallelRetrieve (s, c) =
       Inr (s', c') \<and>
     evidence_docs s = Some [passage_a] \<and>
     evidence_docs s' = Some [passage_a, passage_c] \<and>
     prefix [passage_a] [passage_a, passage_c]"
proof -
  from second_retrieval_example obtain s c s' c' where
    run: "run_steps (EnhancedRAGPipeline_init 3 1) growing_services 6
       (AnalyzeQuestion, empty_state ''Is flood damage covered?'', no_calls) =
       Inr (ParallelRetrieve, s, c)"
    and node: "node_fn (EnhancedRAGPipeline_init 3 1) growing_services ParallelRetrieve (s, c) =
       Inr (s', c')"
    and ev: "evidence_docs s = Some [passage_a]" "evidence_docs s' = Some [passage_a, passage_c]"
    by blast
  have ne: "ParallelRetrieve \<noteq> AnalyzeQuestion" by simp
  from evidence_accumulator_grows [OF run ne node] ev
  have "prefix [passage_a] [passage_a, passage_c]" by auto
  with run node ev show ?thesis by blast
qed

end
